theory Spec2Isabelle
  imports Complex_Main
begin

section \<open>DelayInput: the typing worker and its control surface\<close>

text \<open>
  The development follows \<^verbatim>\<open>DelayInput.py\<close>. A Python string is a sequence of Unicode
  code points, so a character is its code point (\<open>ord ch\<close> is the identity) and a string is
  a list of them; \<open>py\<close> writes an ASCII literal in that form.
\<close>

type_synonym pychar = nat
type_synonym pystr = "nat list"

definition py :: "string \<Rightarrow> pystr" where
  "py s = map of_char s"

subsection \<open>External calls and signals of the worker\<close>

text \<open>
  The worker talks to the outside through \<^verbatim>\<open>keyboard.write\<close>, \<^verbatim>\<open>pyautogui.write\<close>,
  \<^verbatim>\<open>pyautogui.press\<close>, \<^verbatim>\<open>time.sleep\<close>, \<^verbatim>\<open>random.randint\<close> and its five Qt signals.
  A run is described by the list of these calls in the order they are made. A call that
  raises is still listed: it was made.
\<close>

datatype key = KEnter | KTab | KBackspace | KEsc

datatype exc =
    PyautoguiError pystr    \<comment> \<open>an exception of a pyautogui call, with its message\<close>
  | RandintEmptyRange       \<comment> \<open>the ValueError of \<^verbatim>\<open>random.randint(a, b)\<close> with \<open>b < a\<close>\<close>
  | SleepOverflow           \<comment> \<open>the OverflowError of \<^verbatim>\<open>time.sleep(delay_ms / 1000.0)\<close>\<close>

datatype action =
    KeyboardWrite pystr     \<comment> \<open>\<^verbatim>\<open>keyboard.write(text, delay=0)\<close>\<close>
  | PyautoWrite pystr       \<comment> \<open>\<^verbatim>\<open>pyautogui.write(text, interval=0)\<close>\<close>
  | PyautoPress key         \<comment> \<open>\<^verbatim>\<open>pyautogui.press(name)\<close>\<close>
  | IdleSleep               \<comment> \<open>\<^verbatim>\<open>time.sleep(0.05)\<close> of the pause loop\<close>
  | DelaySleep int          \<comment> \<open>\<^verbatim>\<open>time.sleep(delay_ms / 1000.0)\<close> after a unit\<close>
  | RandInt int int int     \<comment> \<open>\<^verbatim>\<open>random.randint(lo, hi)\<close> and the value it returned\<close>
  | ProgressChanged nat     \<comment> \<open>\<^verbatim>\<open>progress_changed.emit(percent)\<close>\<close>
  | FocusPaused             \<comment> \<open>\<^verbatim>\<open>focus_paused.emit()\<close>\<close>
  | Finished                \<comment> \<open>\<^verbatim>\<open>finished.emit()\<close>\<close>
  | Stopped                 \<comment> \<open>\<^verbatim>\<open>stopped.emit()\<close>\<close>
  | Error exc               \<comment> \<open>\<^verbatim>\<open>error.emit(str(e))\<close>\<close>

subsection \<open>Character classification and the write primitives\<close>

definition is_fast_char :: "pychar \<Rightarrow> bool" where
  "is_fast_char ch = (if ch = 10 \<or> ch = 9 then False else ch \<ge> 32)"

text \<open>
  \<open>safe_write\<close> and \<open>type_char\<close> take the outcome of the calls they make as arguments:
  \<open>kb_raises\<close> says whether \<^verbatim>\<open>keyboard.write\<close> raises, \<open>pg_raises\<close> is the exception of the
  pyautogui call, if it raises. They return the calls made and the exception that leaves
  the function, if any.
\<close>

definition safe_write :: "bool \<Rightarrow> exc option \<Rightarrow> pystr \<Rightarrow> action list \<times> exc option" where
  "safe_write kb_raises pg_raises s =
     (if \<not> kb_raises then ([KeyboardWrite s], None)
      else ([KeyboardWrite s, PyautoWrite s], pg_raises))"

definition fast_type_chunk :: "bool \<Rightarrow> exc option \<Rightarrow> pystr \<Rightarrow> action list \<times> exc option" where
  "fast_type_chunk kb_raises pg_raises chunk =
     (if chunk \<noteq> [] then safe_write kb_raises pg_raises chunk else ([], None))"

definition type_char :: "bool \<Rightarrow> exc option \<Rightarrow> pychar \<Rightarrow> action list \<times> exc option" where
  "type_char kb_raises pg_raises ch =
     (if ch = 10 then
        (if \<not> kb_raises then ([KeyboardWrite [10]], None)
         else ([KeyboardWrite [10], PyautoPress KEnter], pg_raises))
      else if ch = 9 then
        (if \<not> kb_raises then ([KeyboardWrite [9]], None)
         else ([KeyboardWrite [9], PyautoPress KTab], pg_raises))
      else if ch < 32 then
        (if ch = 8 then ([PyautoPress KBackspace], pg_raises)
         else if ch = 27 then ([PyautoPress KEsc], pg_raises)
         else ([], None))
      else safe_write kb_raises pg_raises [ch])"

subsection \<open>The progress percentage\<close>

text \<open>
  \<^verbatim>\<open>percent = int(i / length * 100)\<close> is computed in binary64 floating point: the true
  division of two integers is rounded to the nearest double, the product with \<open>100\<close> is
  rounded again, and \<open>int\<close> truncates. The values involved are positive and far from the
  limits of the exponent range, so a double is a fraction \<open>m * 2 ^ s / 2 ^ k\<close> with a
  53-bit significand \<open>m\<close>, and rounding is to nearest, ties to even.

  \<open>rne_div a b\<close> rounds the fraction \<open>a / b\<close> to the nearest integer, ties to even.
  \<open>up_shift\<close> and \<open>dn_shift\<close> find the binary exponent: how often \<open>p / q\<close> has to be
  doubled, or halved, to lie in \<open>[2 ^ 52, 2 ^ 53)\<close>. \<open>fl53 (p, q)\<close> is the double nearest
  to \<open>p / q\<close>, as a fraction.
\<close>

definition rne_div :: "nat \<Rightarrow> nat \<Rightarrow> nat" where
  "rne_div a b =
     (let d = a div b; r = a mod b
      in if 2 * r < b then d else if b < 2 * r then d + 1 else if even d then d else d + 1)"

function up_shift :: "nat \<Rightarrow> nat \<Rightarrow> nat" where
  "up_shift p q = (if 0 < p \<and> p < 2 ^ 52 * q then Suc (up_shift (2 * p) q) else 0)"
  by pat_completeness auto
termination
  by (relation "measure (\<lambda>(p, q). 2 ^ 52 * q - p)") auto

function dn_shift :: "nat \<Rightarrow> nat \<Rightarrow> nat" where
  "dn_shift p q = (if 0 < q \<and> 2 ^ 53 * q \<le> p then Suc (dn_shift p (2 * q)) else 0)"
  by pat_completeness auto
termination
  by (relation "measure (\<lambda>(p, q). Suc p - 2 ^ 53 * q)") auto

declare up_shift.simps [simp del] dn_shift.simps [simp del]

definition fl53 :: "nat \<times> nat \<Rightarrow> nat \<times> nat" where
  "fl53 x = (case x of (p, q) \<Rightarrow>
     if p = 0 \<or> q = 0 then (0, 1)
     else let k = up_shift p q; s = dn_shift p q;
              m = rne_div (p * 2 ^ k) (q * 2 ^ s)
          in (m * 2 ^ s, 2 ^ k))"

definition percent :: "nat \<Rightarrow> nat \<Rightarrow> nat" where
  "percent i n =
     (case fl53 (i, n) of (a, b) \<Rightarrow> case fl53 (a * 100, b) of (c, d) \<Rightarrow> c div d)"

subsection \<open>The worker object\<close>

text \<open>
  The fields of \<^verbatim>\<open>TypingWorker\<close>. The constructor swaps the jitter bounds when they come in
  the wrong order. The four methods below are the only code that assigns a field after
  construction; the control thread calls them while \<^verbatim>\<open>run\<close> is executing.
\<close>

record worker =
  text_str :: pystr
  base_delay_ms :: int
  use_random :: bool
  rand_min_ms :: int
  rand_max_ms :: int
  stop_flag :: bool
  pause_flag :: bool
  target_window_title :: "pystr option"

definition TypingWorker_init ::
  "pystr \<Rightarrow> int \<Rightarrow> bool \<Rightarrow> int \<Rightarrow> int \<Rightarrow> pystr option \<Rightarrow> worker" where
  "TypingWorker_init tx base rnd rmin rmax title =
     (let w = \<lparr>text_str = tx, base_delay_ms = base, use_random = rnd,
                rand_min_ms = rmin, rand_max_ms = rmax,
                stop_flag = False, pause_flag = False, target_window_title = None\<rparr>;
          w = (if rand_max_ms w < rand_min_ms w
               then w\<lparr>rand_min_ms := rand_max_ms w, rand_max_ms := rand_min_ms w\<rparr> else w)
      in w\<lparr>stop_flag := False, pause_flag := False, target_window_title := title\<rparr>)"

definition stop :: "worker \<Rightarrow> worker" where
  "stop w = w\<lparr>stop_flag := True\<rparr>"

definition pause :: "worker \<Rightarrow> worker" where
  "pause w = w\<lparr>pause_flag := True\<rparr>"

definition resume :: "worker \<Rightarrow> worker" where
  "resume w = w\<lparr>pause_flag := False\<rparr>"

definition set_target_window :: "pystr option \<Rightarrow> worker \<Rightarrow> worker" where
  "set_target_window title w = w\<lparr>target_window_title := title\<rparr>"

datatype call = CallStop | CallPause | CallResume | CallSetTargetWindow "pystr option"

fun apply_call :: "worker \<Rightarrow> call \<Rightarrow> worker" where
  "apply_call w CallStop = stop w"
| "apply_call w CallPause = pause w"
| "apply_call w CallResume = resume w"
| "apply_call w (CallSetTargetWindow title) = set_target_window title w"

definition apply_calls :: "call list \<Rightarrow> worker \<Rightarrow> worker" where
  "apply_calls cs w = foldl apply_call w cs"

text \<open>Python's truth value of an optional string: \<^verbatim>\<open>None\<close> and \<^verbatim>\<open>""\<close> are false.\<close>

definition truthy :: "pystr option \<Rightarrow> bool" where
  "truthy t = (case t of None \<Rightarrow> False | Some s \<Rightarrow> s \<noteq> [])"

subsection \<open>The environment of a run\<close>

text \<open>
  \<^verbatim>\<open>run\<close> executes on its own thread. What it does depends on the outside only through
  the values it reads: the flags and the target title, which the control thread changes by
  calling the four methods, and the results of the external calls. The environment fixes
  all of them. Every pass through the loop body that types a unit moves the cursor forward,
  so a pass is identified by the cursor \<open>i\<close> it starts with, and the environment is indexed
  by it:
  \<^item> \<open>calls_top env i\<close>: the calls of the control thread that land before the stop check at
    the top of the pass;
  \<^item> \<open>active_window env i\<close>: what \<^verbatim>\<open>pyautogui.getActiveWindowTitle()\<close> does in
    \<^verbatim>\<open>_check_focus\<close>, and \<open>calls_query env i\<close>: the calls that land while it runs;
  \<^item> \<open>calls_idle env i\<close>: the calls that land during the first, second, ... sleep of the
    pause loop. After the last entry the control thread stays silent for good;
  \<^item> \<open>keyboard_raises env i\<close>, \<open>pyautogui_raises env i\<close>: whether \<^verbatim>\<open>keyboard.write\<close>
    raises, and the message of the exception of the pyautogui call, if it raises, for the
    unit typed in this pass;
  \<^item> \<open>randint_raw env i\<close>: the entropy of the jitter draw;
  \<^item> \<open>sleep_overflows env d\<close>: whether \<^verbatim>\<open>time.sleep(d / 1000.0)\<close> raises OverflowError,
    which it does for a delay beyond the time range of the platform;
  \<^item> \<open>calls_emit env i\<close>: the calls that land after the second stop check, while the unit
    is typed and the delay is slept.
\<close>

datatype fg = FgRaises | FgReturns "pystr option"

record env =
  calls_top :: "nat \<Rightarrow> call list"
  active_window :: "nat \<Rightarrow> fg"
  calls_query :: "nat \<Rightarrow> call list"
  calls_idle :: "nat \<Rightarrow> call list list"
  keyboard_raises :: "nat \<Rightarrow> bool"
  pyautogui_raises :: "nat \<Rightarrow> pystr option"
  randint_raw :: "nat \<Rightarrow> nat"
  sleep_overflows :: "int \<Rightarrow> bool"
  calls_emit :: "nat \<Rightarrow> call list"

subsection \<open>The pieces of the loop body\<close>

definition check_focus :: "env \<Rightarrow> nat \<Rightarrow> worker \<Rightarrow> worker \<times> action list" where
  "check_focus env i w =
     (if \<not> truthy (target_window_title w) \<or> stop_flag w \<or> pause_flag w then (w, [])
      else case active_window env i of
        FgRaises \<Rightarrow> (apply_calls (calls_query env i) w, [])
      | FgReturns current_title \<Rightarrow>
          (let w' = apply_calls (calls_query env i) w
           in if \<not> truthy current_title \<or> current_title \<noteq> target_window_title w'
              then (w'\<lparr>pause_flag := True\<rparr>, [FocusPaused])
              else (w', [])))"

text \<open>
  The pause loop \<^verbatim>\<open>while self._pause_flag and not self._stop_flag: time.sleep(0.05)\<close>.
  It has no bound of its own: when the worker is paused, not stopped, and the control
  thread makes no further call, it sleeps forever, and the result is \<open>None\<close>.
\<close>

fun pause_wait :: "worker \<Rightarrow> call list list \<Rightarrow> (worker \<times> action list) option" where
  "pause_wait w [] = (if pause_flag w \<and> \<not> stop_flag w then None else Some (w, []))"
| "pause_wait w (cs # rest) =
     (if pause_flag w \<and> \<not> stop_flag w
      then (case pause_wait (apply_calls cs w) rest of
              None \<Rightarrow> None
            | Some (w', acts) \<Rightarrow> Some (w', IdleSleep # acts))
      else Some (w, []))"

text \<open>The inner loop that collects a chunk of at most \<open>max_chunk = 40\<close> fast characters.\<close>

function chunk_loop :: "pystr \<Rightarrow> nat \<Rightarrow> pystr \<Rightarrow> nat \<times> pystr" where
  "chunk_loop tx i chunk_chars =
     (if i < length tx \<and> length chunk_chars < 40 \<and> is_fast_char (tx ! i)
      then chunk_loop tx (Suc i) (chunk_chars @ [tx ! i])
      else (i, chunk_chars))"
  by pat_completeness auto
termination
  by (relation "measure (\<lambda>(tx, i, chunk_chars). length tx - i)") auto

declare chunk_loop.simps [simp del]

definition emit_unit :: "env \<Rightarrow> bool \<Rightarrow> nat \<Rightarrow> worker \<Rightarrow> nat \<times> action list \<times> exc option" where
  "emit_unit env fast_mode i w =
     (let kb = keyboard_raises env i; pg = map_option PyautoguiError (pyautogui_raises env i)
      in if fast_mode \<and> is_fast_char (text_str w ! i)
         then (case chunk_loop (text_str w) i [] of (i', chunk_chars) \<Rightarrow>
                 (case fast_type_chunk kb pg chunk_chars of (acts, e) \<Rightarrow> (i', acts, e)))
         else (case type_char kb pg (text_str w ! i) of (acts, e) \<Rightarrow> (Suc i, acts, e)))"

text \<open>
  \<^verbatim>\<open>random.randint(a, b)\<close> returns an integer \<open>N\<close> with \<open>a \<le> N \<le> b\<close> and raises
  ValueError when the range is empty. Which \<open>N\<close> is drawn is decided by the entropy \<open>raw\<close>;
  every \<open>N\<close> of the range is drawn for some \<open>raw\<close>.
\<close>

definition randint :: "int \<Rightarrow> int \<Rightarrow> nat \<Rightarrow> exc + int" where
  "randint a b raw =
     (if b < a then Inl RandintEmptyRange else Inr (a + int raw mod (b - a + 1)))"

text \<open>
  The delay after a unit: \<^verbatim>\<open>if delay_ms > 0: time.sleep(delay_ms / 1000.0)\<close>. The sleep is
  listed when it is attempted, also when it raises.
\<close>

definition sleep_ms :: "env \<Rightarrow> int \<Rightarrow> action list \<times> exc option" where
  "sleep_ms env delay_ms =
     (if delay_ms > 0
      then ([DelaySleep delay_ms], if sleep_overflows env delay_ms then Some SleepOverflow else None)
      else ([], None))"

definition unit_delay :: "env \<Rightarrow> worker \<Rightarrow> nat \<Rightarrow> action list \<times> exc option" where
  "unit_delay env w raw =
     (let delay_ms = base_delay_ms w
      in if use_random w
         then (case randint (rand_min_ms w) (rand_max_ms w) raw of
                 Inl e \<Rightarrow> ([], Some e)
               | Inr j \<Rightarrow>
                   (case sleep_ms env (delay_ms + j) of
                      (acts, e) \<Rightarrow> (RandInt (rand_min_ms w) (rand_max_ms w) j # acts, e)))
         else sleep_ms env delay_ms)"

subsection \<open>The loop and \<^verbatim>\<open>run\<close>\<close>

text \<open>
  One pass through the body of \<^verbatim>\<open>while i < length\<close>. It ends the run (\<open>Halt\<close>, with the
  terminal signal as the last action), or hands the new cursor to the next pass (\<open>Next\<close>),
  or never ends (\<open>None\<close>). The locals \<^verbatim>\<open>length\<close> and \<^verbatim>\<open>fast_mode\<close> are computed once from
  fields that nothing assigns afterwards; \<open>fast_mode\<close> is passed along, the length is read
  off the text.
\<close>

datatype step = Halt "action list" worker | Next nat "action list" worker

definition loop_body :: "env \<Rightarrow> bool \<Rightarrow> nat \<Rightarrow> worker \<Rightarrow> step option" where
  "loop_body env fast_mode i w0 =
     (let w1 = apply_calls (calls_top env i) w0
      in if stop_flag w1 then Some (Halt [Stopped] w1)
         else case check_focus env i w1 of (w2, a2) \<Rightarrow>
           (case pause_wait w2 (calls_idle env i) of
              None \<Rightarrow> None
            | Some (w3, a3) \<Rightarrow>
                if stop_flag w3 then Some (Halt (a2 @ a3 @ [Stopped]) w3)
                else let w4 = apply_calls (calls_emit env i) w3
                     in case emit_unit env fast_mode i w3 of (i', a4, e4) \<Rightarrow>
                  (case e4 of
                     Some e \<Rightarrow> Some (Halt (a2 @ a3 @ a4 @ [Error e]) w4)
                   | None \<Rightarrow>
                       (let a5 = [ProgressChanged (percent i' (length (text_str w3)))]
                        in if fast_mode then Some (Next i' (a2 @ a3 @ a4 @ a5) w4)
                           else case unit_delay env w3 (randint_raw env i) of (a6, e6) \<Rightarrow>
                             (case e6 of
                                Some e \<Rightarrow> Some (Halt (a2 @ a3 @ a4 @ a5 @ a6 @ [Error e]) w4)
                              | None \<Rightarrow> Some (Next i' (a2 @ a3 @ a4 @ a5 @ a6) w4))))))"

text \<open>
  Nothing in the loop body assigns the text, and every pass that continues moves the
  cursor forward; this is what makes the loop terminate apart from the pause loop.
\<close>

lemma text_apply_calls: "text_str (apply_calls cs v) = text_str v"
  unfolding apply_calls_def
proof (induction cs arbitrary: v)
  case Nil
  show ?case by simp
next
  case (Cons c cs)
  show ?case
    by (cases c) (simp_all add: Cons.IH stop_def pause_def resume_def set_target_window_def)
qed

lemma text_check_focus: "text_str (fst (check_focus env i v)) = text_str v"
  by (simp add: check_focus_def text_apply_calls Let_def split: fg.splits)

lemma text_pause_wait: "pause_wait v ts = Some (v', a) \<Longrightarrow> text_str v' = text_str v"
proof (induction ts arbitrary: v a)
  case Nil
  then show ?case by (simp split: if_splits)
next
  case (Cons cs ts)
  then show ?case
    by (fastforce simp: text_apply_calls split: if_splits option.splits)
qed

lemma chunk_loop_rec:
  "i < length tx \<Longrightarrow> length c < 40 \<Longrightarrow> is_fast_char (tx ! i) \<Longrightarrow>
   chunk_loop tx i c = chunk_loop tx (Suc i) (c @ [tx ! i])"
  by (subst chunk_loop.simps) simp

lemma chunk_loop_stop:
  "\<not> (i < length tx \<and> length c < 40 \<and> is_fast_char (tx ! i)) \<Longrightarrow> chunk_loop tx i c = (i, c)"
  by (subst chunk_loop.simps) (simp only: if_False)

lemma chunk_loop_le: "j \<le> fst (chunk_loop tx j c)"
proof (induction tx j c rule: chunk_loop.induct)
  case (1 tx j c)
  show ?case
  proof (cases "j < length tx \<and> length c < 40 \<and> is_fast_char (tx ! j)")
    case True
    then have "chunk_loop tx j c = chunk_loop tx (Suc j) (c @ [tx ! j])"
      by (simp add: chunk_loop_rec)
    moreover have "Suc j \<le> fst (chunk_loop tx (Suc j) (c @ [tx ! j]))"
      using "1.IH" True by simp
    ultimately show ?thesis by simp
  next
    case False
    then show ?thesis by (simp add: chunk_loop_stop)
  qed
qed

lemma chunk_loop_lt:
  assumes "j < length tx" "is_fast_char (tx ! j)"
  shows "j < fst (chunk_loop tx j [])"
proof -
  have "chunk_loop tx j [] = chunk_loop tx (Suc j) ([] @ [tx ! j])"
    using assms by (simp add: chunk_loop_rec)
  then show ?thesis
    using chunk_loop_le [of "Suc j" tx "[] @ [tx ! j]"] by simp
qed

lemma emit_unit_lt: "j < length (text_str v) \<Longrightarrow> j < fst (emit_unit env fast_mode j v)"
  using chunk_loop_lt [of j "text_str v"]
  by (auto simp: emit_unit_def Let_def split: prod.splits)

lemma loop_body_Next:
  assumes "loop_body env fast_mode i w = Some (Next i' acts w')"
  shows "\<exists>w3 a3. pause_wait (fst (check_focus env i (apply_calls (calls_top env i) w))) (calls_idle env i)
            = Some (w3, a3)
          \<and> i' = fst (emit_unit env fast_mode i w3)
          \<and> w' = apply_calls (calls_emit env i) w3"
  using assms unfolding loop_body_def Let_def
  by (simp split: if_splits prod.splits option.splits)

lemma loop_body_Next_progress:
  assumes "loop_body env fast_mode i w = Some (Next i' acts w')" "i < length (text_str w)"
  shows "i < i' \<and> text_str w' = text_str w"
proof -
  from loop_body_Next [OF assms(1)] obtain w3 a3 where
    pw: "pause_wait (fst (check_focus env i (apply_calls (calls_top env i) w))) (calls_idle env i)
            = Some (w3, a3)"
    and i': "i' = fst (emit_unit env fast_mode i w3)"
    and w': "w' = apply_calls (calls_emit env i) w3"
    by blast
  have t3: "text_str w3 = text_str w"
    using text_pause_wait [OF pw] by (simp add: text_check_focus text_apply_calls)
  have "i < i'" unfolding i' using assms(2) t3 by (simp add: emit_unit_lt)
  moreover have "text_str w' = text_str w" by (simp add: w' text_apply_calls t3)
  ultimately show ?thesis by simp
qed

function run_loop :: "env \<Rightarrow> bool \<Rightarrow> nat \<Rightarrow> worker \<Rightarrow> (action list \<times> worker) option" where
  "run_loop env fast_mode i w =
     (if i < length (text_str w)
      then (case loop_body env fast_mode i w of
              None \<Rightarrow> None
            | Some (Halt acts w') \<Rightarrow> Some (acts, w')
            | Some (Next i' acts w') \<Rightarrow>
                (case run_loop env fast_mode i' w' of
                   None \<Rightarrow> None
                 | Some (rest, w_end) \<Rightarrow> Some (acts @ rest, w_end)))
      else Some ([Finished], w))"
  by pat_completeness auto
termination
proof (relation "measure (\<lambda>(env, fast_mode, i, w). length (text_str w) - i)", goal_cases)
  case 1
  show ?case by simp
next
  case (2 env fast_mode i w st i' acts w')
  then have "i < i' \<and> text_str w' = text_str w"
    using loop_body_Next_progress [of env fast_mode i w i' acts w'] by simp
  with 2 show ?case by (auto intro: diff_less_mono2)
qed

declare run_loop.simps [simp del]

definition run :: "env \<Rightarrow> worker \<Rightarrow> (action list \<times> worker) option" where
  "run env w =
     (let len = length (text_str w)
      in if len = 0 then Some ([Finished], w)
         else let fast_mode = (base_delay_ms w = 0 \<and> \<not> use_random w)
              in run_loop env fast_mode 0 w)"

text \<open>
  An environment in which nothing happens: the control thread makes no call, the foreground
  window has the given title, no primitive and no sleep raises, and the entropy is \<open>0\<close>.
\<close>

definition quiet_env :: "pystr option \<Rightarrow> env" where
  "quiet_env title =
     \<lparr>calls_top = (\<lambda>_. []), active_window = (\<lambda>_. FgReturns title), calls_query = (\<lambda>_. []),
      calls_idle = (\<lambda>_. []), keyboard_raises = (\<lambda>_. False), pyautogui_raises = (\<lambda>_. None),
      randint_raw = (\<lambda>_. 0), sleep_overflows = (\<lambda>_. False), calls_emit = (\<lambda>_. [])\<rparr>"

text \<open>Scenarios used below: a worker typing into the window titled \<open>Notepad\<close> with no delay
  and no jitter, and an environment in which the foreground window is \<open>Chrome\<close> and the
  control thread retargets and resumes the worker during the second idle sleep at cursor 0.\<close>

definition notepad_worker :: "pystr \<Rightarrow> worker" where
  "notepad_worker tx = TypingWorker_init tx 0 False 5 10 (Some (py ''Notepad''))"

definition focus_switch_env :: env where
  "focus_switch_env =
     (quiet_env (Some (py ''Chrome'')))
       \<lparr>calls_idle := (\<lambda>i. if i = 0 then [[], [CallSetTargetWindow (Some (py ''Chrome'')), CallResume]]
                            else [])\<rparr>"

text \<open>The actions of one pass.\<close>

fun step_actions :: "step \<Rightarrow> action list" where
  "step_actions (Halt acts w) = acts"
| "step_actions (Next i acts w) = acts"

text \<open>The terminal signals of a run.\<close>

fun is_terminal :: "action \<Rightarrow> bool" where
  "is_terminal Finished = True"
| "is_terminal Stopped = True"
| "is_terminal (Error e) = True"
| "is_terminal a = False"

text \<open>
  Two more scenarios: both write primitives fail, with the message \<open>boom\<close>; and the
  foreground window is \<open>Chrome\<close> while the control thread calls \<^verbatim>\<open>stop()\<close> during the first
  idle sleep.
\<close>

definition failing_env :: env where
  "failing_env =
     (quiet_env (Some (py ''Notepad'')))
       \<lparr>keyboard_raises := (\<lambda>_. True), pyautogui_raises := (\<lambda>_. Some (py ''boom''))\<rparr>"

definition stop_while_paused_env :: env where
  "stop_while_paused_env = (quiet_env (Some (py ''Chrome'')))\<lparr>calls_idle := (\<lambda>_. [[CallStop]])\<rparr>"

subsection \<open>The control surface\<close>

text \<open>
  The fields of \<^verbatim>\<open>MainWindow\<close> that the session logic reads and writes: the state, the worker
  object, the hotkey, whether the two timers run, and what the status label, the progress
  bar and the buttons show. A status text is one constructor per message of the source.
  \<^verbatim>\<open>_resume_typing\<close> takes the outcome of \<^verbatim>\<open>pyautogui.getActiveWindowTitle()\<close> as an argument.
\<close>

datatype ui_state = STATE_IDLE | STATE_COUNTDOWN | STATE_TYPING | STATE_PAUSED

datatype status_text =
    StWaiting | StCancelled | StAborted | StFinished | StTyping | StTypingHotkey
  | StResumeNoWindow | StResumeSelf

datatype pause_label = LabelPause | LabelContinue

record main_window =
  state :: ui_state
  typing_worker :: "worker option"
  hotkey_str :: pystr
  hotkey_handle :: "nat option"
  hotkey_occupied :: bool
  countdown_timer_active :: bool
  resume_timer_active :: bool
  status_label :: status_text
  status_is_error :: bool
  progress_bar :: nat
  btn_pause_text :: pause_label
  btn_start_enabled :: bool
  window_title :: pystr

definition reset_timers :: "main_window \<Rightarrow> main_window" where
  "reset_timers m = m\<lparr>countdown_timer_active := False, resume_timer_active := False\<rparr>"

definition update_status :: "status_text \<Rightarrow> nat option \<Rightarrow> bool \<Rightarrow> main_window \<Rightarrow> main_window" where
  "update_status tx progress is_error m =
     (let progress = (case progress of None \<Rightarrow> progress_bar m | Some p \<Rightarrow> p)
      in m\<lparr>status_label := tx, progress_bar := progress, status_is_error := is_error\<rparr>)"

definition set_idle :: "status_text \<Rightarrow> nat option \<Rightarrow> bool \<Rightarrow> main_window \<Rightarrow> main_window" where
  "set_idle tx progress is_error m =
     update_status tx progress is_error
       ((reset_timers m)\<lparr>state := STATE_IDLE, btn_pause_text := LabelPause,
                          btn_start_enabled := True\<rparr>)"

definition resume_typing :: "fg \<Rightarrow> bool \<Rightarrow> main_window \<Rightarrow> main_window" where
  "resume_typing query from_hotkey m =
     (if \<not> (typing_worker m \<noteq> None \<and> state m = STATE_PAUSED) then m
      else let current_win = (case query of FgRaises \<Rightarrow> None | FgReturns t \<Rightarrow> t)
           in if \<not> truthy current_win
              then (update_status StResumeNoWindow (Some (progress_bar m)) True m)
                     \<lparr>resume_timer_active := False\<rparr>
              else if current_win = Some (window_title m)
              then (update_status StResumeSelf (Some (progress_bar m)) True m)
                     \<lparr>resume_timer_active := False\<rparr>
              else update_status (if from_hotkey then StTypingHotkey else StTyping)
                     (Some (progress_bar m)) False
                     (m\<lparr>typing_worker := map_option (\<lambda>wk. resume (set_target_window current_win wk))
                                            (typing_worker m),
                        state := STATE_TYPING, btn_pause_text := LabelPause\<rparr>))"

definition cancel_typing :: "main_window \<Rightarrow> main_window" where
  "cancel_typing m =
     (if state m = STATE_IDLE then m
      else if state m = STATE_COUNTDOWN then set_idle StCancelled (Some (progress_bar m)) False m
      else set_idle StAborted (Some (progress_bar m)) False
             (m\<lparr>typing_worker := map_option stop (typing_worker m)\<rparr>))"

definition on_typing_finished :: "main_window \<Rightarrow> main_window" where
  "on_typing_finished m = set_idle StFinished (Some 100) False m"

definition on_typing_stopped :: "main_window \<Rightarrow> main_window" where
  "on_typing_stopped m = set_idle StAborted (Some (progress_bar m)) False m"

text \<open>
  Python's string operations used by the hotkey check. \<open>is_space\<close> lists the code points
  for which \<^verbatim>\<open>str.isspace\<close> holds; \<^verbatim>\<open>strip()\<close> removes them from both ends. Lower-casing and
  the digit test are the ASCII ones on ASCII characters; beyond ASCII they are read from the
  Unicode database, which is a parameter here.
\<close>

definition is_space :: "pychar \<Rightarrow> bool" where
  "is_space c \<longleftrightarrow>
     (9 \<le> c \<and> c \<le> 13) \<or> (28 \<le> c \<and> c \<le> 32) \<or> c = 133 \<or> c = 160 \<or> c = 5760
     \<or> (8192 \<le> c \<and> c \<le> 8202) \<or> c = 8232 \<or> c = 8233 \<or> c = 8239 \<or> c = 8287 \<or> c = 12288"

definition strip :: "pystr \<Rightarrow> pystr" where
  "strip s = rev (dropWhile is_space (rev (dropWhile is_space s)))"

fun split :: "pychar \<Rightarrow> pystr \<Rightarrow> pystr list" where
  "split sep [] = [[]]"
| "split sep (c # cs) =
     (if c = sep then [] # split sep cs
      else (case split sep cs of [] \<Rightarrow> [[c]] | p # ps \<Rightarrow> (c # p) # ps))"

fun join :: "pystr \<Rightarrow> pystr list \<Rightarrow> pystr" where
  "join sep [] = []"
| "join sep [p] = p"
| "join sep (p # q # ps) = p @ sep @ join sep (q # ps)"

record unicode_db =
  u_lower :: "pystr \<Rightarrow> pystr"
  u_isdigit :: "pychar \<Rightarrow> bool"

definition lower :: "unicode_db \<Rightarrow> pystr \<Rightarrow> pystr" where
  "lower U s =
     (if list_all (\<lambda>c. c < 128) s then map (\<lambda>c. if 65 \<le> c \<and> c \<le> 90 then c + 32 else c) s
      else u_lower U s)"

definition isdigit :: "unicode_db \<Rightarrow> pystr \<Rightarrow> bool" where
  "isdigit U s \<longleftrightarrow>
     s \<noteq> [] \<and> list_all (\<lambda>c. if c < 128 then 48 \<le> c \<and> c \<le> 57 else u_isdigit U c) s"

definition startswith :: "pystr \<Rightarrow> pystr \<Rightarrow> bool" where
  "startswith s p \<longleftrightarrow> take (length p) s = p"

text \<open>
  The hotkey: \<^verbatim>\<open>_canonicalize_sequence\<close>, \<^verbatim>\<open>_register_hotkey\<close>, where \<open>add_hotkey\<close> gives the
  handle returned by \<^verbatim>\<open>keyboard.add_hotkey\<close>, or \<open>None\<close> when it raises, and
  \<^verbatim>\<open>_on_hotkey_committed\<close>. The text shown in the edit box is left out.
\<close>

definition canonical_part :: "unicode_db \<Rightarrow> pystr \<Rightarrow> pystr" where
  "canonical_part U p =
     (let low = lower U p
      in if low = py ''ctrl'' \<or> low = py ''control'' then py ''ctrl''
         else if low = py ''shift'' then py ''shift''
         else if low = py ''alt'' \<or> low = py ''menu'' then py ''alt''
         else if low = py ''win'' \<or> low = py ''windows'' \<or> low = py ''meta'' \<or> low = py ''super''
         then py ''windows''
         else low)"

definition canonicalize_sequence :: "unicode_db \<Rightarrow> pystr \<Rightarrow> pystr" where
  "canonicalize_sequence U seq_str =
     join (py ''+'') (map (canonical_part U) (filter (\<lambda>p. p \<noteq> []) (map strip (split 43 seq_str))))"

definition set_hotkey_display :: "bool \<Rightarrow> main_window \<Rightarrow> main_window" where
  "set_hotkey_display occupied m = m\<lparr>hotkey_occupied := occupied\<rparr>"

definition register_hotkey :: "(pystr \<Rightarrow> nat option) \<Rightarrow> main_window \<Rightarrow> main_window" where
  "register_hotkey add_hotkey m =
     (let m = m\<lparr>hotkey_handle := None\<rparr>
      in case add_hotkey (hotkey_str m) of
           Some h \<Rightarrow> set_hotkey_display False (m\<lparr>hotkey_handle := Some h\<rparr>)
         | None \<Rightarrow> set_hotkey_display True m)"

definition on_hotkey_committed ::
  "unicode_db \<Rightarrow> (pystr \<Rightarrow> nat option) \<Rightarrow> pystr \<Rightarrow> bool \<Rightarrow> main_window \<Rightarrow> main_window" where
  "on_hotkey_committed U add_hotkey seq_str has_main_key m =
     (let seq_str = strip seq_str
      in if seq_str = [] \<or> \<not> has_main_key then set_hotkey_display (hotkey_occupied m) m
         else let parts = filter (\<lambda>p. p \<noteq> []) (map strip (split 43 seq_str))
              in if length parts < 2 then set_hotkey_display (hotkey_occupied m) m
                 else let first = lower U (hd parts)
                      in if first \<notin> {py ''ctrl'', py ''control'', py ''shift'', py ''alt''}
                         then set_hotkey_display (hotkey_occupied m) m
                         else let main_display = last parts;
                                  main_low = lower U main_display;
                                  allowed = (length main_display = 1
                                             \<or> (startswith main_low (py ''f'')
                                                 \<and> isdigit U (drop 1 main_low)))
                              in if \<not> allowed then set_hotkey_display (hotkey_occupied m) m
                                 else let new_hotkey = canonicalize_sequence U seq_str
                                      in if new_hotkey = hotkey_str m
                                         then set_hotkey_display (hotkey_occupied m) m
                                         else register_hotkey add_hotkey
                                                (m\<lparr>hotkey_str := new_hotkey\<rparr>))"

definition MainWindow_init :: "(pystr \<Rightarrow> nat option) \<Rightarrow> pystr \<Rightarrow> main_window" where
  "MainWindow_init add_hotkey title =
     set_idle StWaiting (Some 0) False
       (register_hotkey add_hotkey
          \<lparr>state = STATE_IDLE, typing_worker = None, hotkey_str = py ''ctrl+shift+t'',
           hotkey_handle = None, hotkey_occupied = False,
           countdown_timer_active = False, resume_timer_active = False,
           status_label = StWaiting, status_is_error = False, progress_bar = 0,
           btn_pause_text = LabelPause, btn_start_enabled = True, window_title = title\<rparr>)"

text \<open>
  Scenarios of the control surface: a window in state Typing and one in state Paused, with a
  worker for the given text; and an environment in which \<^verbatim>\<open>stop()\<close> is called only while
  the unit is typed, after the last check of the stop flag.
\<close>

definition late_stop_env :: env where
  "late_stop_env = (quiet_env (Some (py ''Notepad'')))\<lparr>calls_emit := (\<lambda>_. [CallStop])\<rparr>"

definition typing_window :: "pystr \<Rightarrow> main_window" where
  "typing_window tx =
     (MainWindow_init (\<lambda>_. Some 0) (py ''DelayInput''))
       \<lparr>state := STATE_TYPING, typing_worker := Some (notepad_worker tx), btn_start_enabled := False\<rparr>"

definition paused_window :: "pystr \<Rightarrow> main_window" where
  "paused_window tx =
     (typing_window tx)\<lparr>state := STATE_PAUSED, typing_worker := Some (pause (notepad_worker tx)),
                         btn_pause_text := LabelContinue\<rparr>"

subsection \<open>Passes, idle ticks and units\<close>

text \<open>
  \<open>waiting\<close> is the condition of the pause loop. \<open>idle_state v ts k\<close> is the worker after
  \<open>k\<close> idle sleeps, when it entered the pause loop as \<open>v\<close> and the control thread makes
  the calls \<open>ts\<close> during the sleeps.
\<close>

definition waiting :: "worker \<Rightarrow> bool" where
  "waiting v \<longleftrightarrow> pause_flag v \<and> \<not> stop_flag v"

definition idle_state :: "worker \<Rightarrow> call list list \<Rightarrow> nat \<Rightarrow> worker" where
  "idle_state v ts k = foldl (\<lambda>u cs. apply_calls cs u) v (take k ts)"

text \<open>
  The passes of the loop from cursor \<open>i\<close> on: the cursor and the worker at the top of each
  iteration of \<^verbatim>\<open>while i < length\<close>, as long as the previous pass handed over a cursor.
\<close>

function passes :: "env \<Rightarrow> bool \<Rightarrow> nat \<Rightarrow> worker \<Rightarrow> (nat \<times> worker) list" where
  "passes env fast_mode i w =
     (if i < length (text_str w)
      then (i, w) # (case loop_body env fast_mode i w of
                       None \<Rightarrow> []
                     | Some (Halt acts w') \<Rightarrow> []
                     | Some (Next i' acts w') \<Rightarrow> passes env fast_mode i' w')
      else [])"
  by pat_completeness auto
termination
proof (relation "measure (\<lambda>(env, fast_mode, i, w). length (text_str w) - i)", goal_cases)
  case 1
  show ?case by simp
next
  case (2 env fast_mode i w st i' acts w')
  then have "i < i' \<and> text_str w' = text_str w"
    using loop_body_Next_progress [of env fast_mode i w i' acts w'] by simp
  with 2 show ?case by (auto intro: diff_less_mono2)
qed

declare passes.simps [simp del]

text \<open>
  The cursor after the unit that starts at \<open>i\<close>: past the chunk in the fast path, one
  further otherwise. \<open>unit_starts\<close> and \<open>unit_ends\<close> list the cursors at which the units
  of a text start and end when nothing interrupts the loop.
\<close>

definition next_cursor :: "bool \<Rightarrow> pystr \<Rightarrow> nat \<Rightarrow> nat" where
  "next_cursor fast_mode tx i =
     (if fast_mode \<and> is_fast_char (tx ! i) then fst (chunk_loop tx i []) else Suc i)"

lemma next_cursor_gt: "i < length tx \<Longrightarrow> i < next_cursor fm tx i"
  by (simp add: next_cursor_def chunk_loop_lt)

function unit_starts :: "bool \<Rightarrow> pystr \<Rightarrow> nat \<Rightarrow> nat list" where
  "unit_starts fast_mode tx i =
     (if i < length tx then i # unit_starts fast_mode tx (next_cursor fast_mode tx i) else [])"
  by pat_completeness auto
termination
  by (relation "measure (\<lambda>(fast_mode, tx, i). length tx - i)")
    (auto simp: next_cursor_gt diff_less_mono2)

declare unit_starts.simps [simp del]

definition unit_ends :: "bool \<Rightarrow> pystr \<Rightarrow> nat \<Rightarrow> nat list" where
  "unit_ends fast_mode tx i = map (next_cursor fast_mode tx) (unit_starts fast_mode tx i)"

section \<open>Unfolding rules for evaluation\<close>

lemma up_shift_rec: "0 < p \<Longrightarrow> p < 2 ^ 52 * q \<Longrightarrow> up_shift p q = Suc (up_shift (2 * p) q)"
  by (subst up_shift.simps) simp
lemma up_shift_stop: "\<not> (0 < p \<and> p < 2 ^ 52 * q) \<Longrightarrow> up_shift p q = 0"
  by (subst up_shift.simps) (simp only: if_False)
lemma dn_shift_rec: "0 < q \<Longrightarrow> 2 ^ 53 * q \<le> p \<Longrightarrow> dn_shift p q = Suc (dn_shift p (2 * q))"
  by (subst dn_shift.simps) simp
lemma dn_shift_stop: "\<not> (0 < q \<and> 2 ^ 53 * q \<le> p) \<Longrightarrow> dn_shift p q = 0"
  by (subst dn_shift.simps) (simp only: if_False)

lemma run_loop_rec:
  "i < length (text_str w) \<Longrightarrow> run_loop env fast_mode i w =
     (case loop_body env fast_mode i w of
              None \<Rightarrow> None
            | Some (Halt acts w') \<Rightarrow> Some (acts, w')
            | Some (Next i' acts w') \<Rightarrow>
                (case run_loop env fast_mode i' w' of
                   None \<Rightarrow> None
                 | Some (rest, w_end) \<Rightarrow> Some (acts @ rest, w_end)))"
  by (subst run_loop.simps) simp

lemma run_loop_end: "\<not> i < length (text_str w) \<Longrightarrow> run_loop env fast_mode i w = Some ([Finished], w)"
  by (subst run_loop.simps) simp

lemmas eval_simps = run_def run_loop_rec run_loop_end loop_body_def check_focus_def emit_unit_def
  chunk_loop_rec chunk_loop_stop fast_type_chunk_def safe_write_def type_char_def is_fast_char_def
  unit_delay_def randint_def sleep_ms_def percent_def fl53_def rne_div_def
  up_shift_rec up_shift_stop dn_shift_rec dn_shift_stop apply_calls_def
  stop_def pause_def resume_def set_target_window_def truthy_def TypingWorker_init_def py_def
  quiet_env_def Let_def numeral_2_eq_2 [symmetric]

section \<open>What the loop body leaves alone\<close>

text \<open>
  The configuration fields are assigned by the constructor only; the stop flag is never
  cleared.
\<close>

definition same_config :: "worker \<Rightarrow> worker \<Rightarrow> bool" where
  "same_config v w \<longleftrightarrow>
     text_str v = text_str w \<and> base_delay_ms v = base_delay_ms w \<and> use_random v = use_random w
     \<and> rand_min_ms v = rand_min_ms w \<and> rand_max_ms v = rand_max_ms w"

lemma same_config_refl [simp]: "same_config w w"
  by (simp add: same_config_def)

lemma same_config_trans: "same_config u v \<Longrightarrow> same_config v w \<Longrightarrow> same_config u w"
  by (simp add: same_config_def)

lemma same_config_apply_call: "same_config (apply_call v c) v"
  by (cases c) (simp_all add: same_config_def stop_def pause_def resume_def set_target_window_def)

lemma same_config_apply_calls: "same_config (apply_calls cs v) v"
  unfolding apply_calls_def
proof (induction cs arbitrary: v)
  case Nil
  show ?case by simp
next
  case (Cons c cs)
  have "same_config (foldl apply_call (apply_call v c) cs) (apply_call v c)" by (rule Cons.IH)
  then show ?case using same_config_apply_call [of v c] by (simp add: same_config_def)
qed

lemma stop_flag_apply_call: "stop_flag v \<Longrightarrow> stop_flag (apply_call v c)"
  by (cases c) (simp_all add: stop_def pause_def resume_def set_target_window_def)

lemma stop_flag_apply_calls: "stop_flag v \<Longrightarrow> stop_flag (apply_calls cs v)"
  unfolding apply_calls_def
  by (induction cs arbitrary: v) (simp_all add: stop_flag_apply_call)

lemma same_config_check_focus: "same_config (fst (check_focus env i v)) v"
  using same_config_apply_calls [of "calls_query env i" v]
  by (simp add: check_focus_def Let_def same_config_def split: fg.splits)

lemma check_focus_acts: "set (snd (check_focus env i v)) \<subseteq> {FocusPaused}"
  by (simp add: check_focus_def Let_def split: fg.splits)

lemma pause_wait_Some:
  "pause_wait v ts = Some (v', a) \<Longrightarrow>
     same_config v' v \<and> set a \<subseteq> {IdleSleep} \<and> (\<not> pause_flag v' \<or> stop_flag v')"
proof (induction ts arbitrary: v a)
  case Nil
  then show ?case by (auto split: if_splits)
next
  case (Cons cs ts)
  show ?case
  proof (cases "pause_flag v \<and> \<not> stop_flag v")
    case True
    with Cons.prems obtain a' where r: "pause_wait (apply_calls cs v) ts = Some (v', a')"
      and a: "a = IdleSleep # a'"
      by (auto split: option.splits)
    from Cons.IH [OF r] same_config_apply_calls [of cs v] show ?thesis
      by (auto simp: a same_config_def)
  next
    case False
    with Cons.prems show ?thesis by auto
  qed
qed

lemma pause_wait_None:
  "pause_wait v ts = None \<Longrightarrow>
     pause_flag (foldl (\<lambda>u cs. apply_calls cs u) v ts) \<and> \<not> stop_flag (foldl (\<lambda>u cs. apply_calls cs u) v ts)"
proof (induction ts arbitrary: v)
  case Nil
  then show ?case by (auto split: if_splits)
next
  case (Cons cs ts)
  then show ?case by (auto split: if_splits option.splits)
qed

lemma pause_wait_stop_eventually:
  assumes "\<exists>cs \<in> set ts. CallStop \<in> set cs"
  shows "pause_wait v ts \<noteq> None"
proof
  assume "pause_wait v ts = None"
  then have n: "\<not> stop_flag (foldl (\<lambda>u cs. apply_calls cs u) v ts)"
    using pause_wait_None by blast
  have "stop_flag (foldl (\<lambda>u cs. apply_calls cs u) v ts)"
    using assms
  proof (induction ts arbitrary: v)
    case Nil
    then show ?case by simp
  next
    case (Cons cs ts)
    show ?case
    proof (cases "CallStop \<in> set cs")
      case True
      have "stop_flag (apply_calls cs v)"
        using True unfolding apply_calls_def
      proof (induction cs arbitrary: v)
        case Nil
        then show ?case by simp
      next
        case (Cons c cs)
        show ?case
        proof (cases "c = CallStop")
          case True
          have "stop_flag (apply_call v c)" by (simp add: True stop_def)
          then show ?thesis
            using stop_flag_apply_calls [of "apply_call v c" cs] by (simp add: apply_calls_def)
        next
          case False
          with Cons show ?thesis by simp
        qed
      qed
      have "stop_flag (foldl (\<lambda>u cs. apply_calls cs u) u ts)" if "stop_flag u" for u
        using that by (induction ts arbitrary: u) (simp_all add: stop_flag_apply_calls)
      with \<open>stop_flag (apply_calls cs v)\<close> show ?thesis by simp
    next
      case False
      with Cons.prems have "\<exists>cs \<in> set ts. CallStop \<in> set cs" by simp
      from Cons.IH [OF this] show ?thesis by simp
    qed
  qed
  with n show False by simp
qed

section \<open>The shape of one pass\<close>

lemma emit_unit_text: "text_str v = text_str w \<Longrightarrow> emit_unit env fm i v = emit_unit env fm i w"
  by (simp add: emit_unit_def Let_def)

lemma unit_delay_config: "same_config v w \<Longrightarrow> unit_delay env v r = unit_delay env w r"
  by (auto simp: unit_delay_def same_config_def Let_def split: sum.splits)

lemma loop_body_reach:
  assumes "pause_wait (fst (check_focus env i (apply_calls (calls_top env i) w))) (calls_idle env i)
             = Some (w3, a3)"
  shows "same_config w3 w \<and> set (snd (check_focus env i (apply_calls (calls_top env i) w)) @ a3)
            \<subseteq> {FocusPaused, IdleSleep}"
proof -
  let ?w1 = "apply_calls (calls_top env i) w"
  have "same_config w3 (fst (check_focus env i ?w1))" "set a3 \<subseteq> {IdleSleep}"
    using pause_wait_Some [OF assms] by simp_all
  moreover have "same_config (fst (check_focus env i ?w1)) ?w1" by (rule same_config_check_focus)
  moreover have "same_config ?w1 w" by (rule same_config_apply_calls)
  moreover have "set (snd (check_focus env i ?w1)) \<subseteq> {FocusPaused}" by (rule check_focus_acts)
  ultimately show ?thesis by (auto simp: same_config_def)
qed

lemma loop_body_Next_shape:
  assumes "loop_body env fm i w = Some (Next i' acts w')"
  shows "same_config w' w \<and>
     (\<exists>pre a4 a6. set pre \<subseteq> {FocusPaused, IdleSleep}
        \<and> emit_unit env fm i w = (i', a4, None)
        \<and> acts = pre @ a4 @ [ProgressChanged (percent i' (length (text_str w)))] @ a6
        \<and> (if fm then a6 = [] else unit_delay env w (randint_raw env i) = (a6, None)))"
proof -
  let ?w1 = "apply_calls (calls_top env i) w"
  let ?cf = "check_focus env i ?w1"
  from assms obtain w3 a3 where
    pw: "pause_wait (fst ?cf) (calls_idle env i) = Some (w3, a3)"
    and rest: "\<exists>a4 a6. emit_unit env fm i w3 = (i', a4, None)
        \<and> acts = (snd ?cf @ a3) @ a4 @ [ProgressChanged (percent i' (length (text_str w3)))] @ a6
        \<and> (if fm then a6 = [] else unit_delay env w3 (randint_raw env i) = (a6, None))
        \<and> w' = apply_calls (calls_emit env i) w3"
    unfolding loop_body_def Let_def
    by (simp split: if_splits prod.splits option.splits)
  from loop_body_reach [OF pw] have sc: "same_config w3 w"
    and pre: "set (snd ?cf @ a3) \<subseteq> {FocusPaused, IdleSleep}" by simp_all
  from rest obtain a4 a6 where
    e: "emit_unit env fm i w3 = (i', a4, None)"
    and a: "acts = (snd ?cf @ a3) @ a4 @ [ProgressChanged (percent i' (length (text_str w3)))] @ a6"
    and d: "if fm then a6 = [] else unit_delay env w3 (randint_raw env i) = (a6, None)"
    and w': "w' = apply_calls (calls_emit env i) w3"
    by blast
  have t: "text_str w3 = text_str w" using sc by (simp add: same_config_def)
  have "same_config w' w"
    unfolding w' using same_config_apply_calls [of "calls_emit env i" w3] sc
    by (rule same_config_trans)
  moreover have "emit_unit env fm i w = (i', a4, None)"
    using e emit_unit_text [OF t] by simp
  moreover have "if fm then a6 = [] else unit_delay env w (randint_raw env i) = (a6, None)"
    using d by (simp add: unit_delay_config [OF sc] split: if_splits)
  ultimately show ?thesis
    using pre a t by (intro conjI exI [of _ "snd ?cf @ a3"] exI [of _ a4] exI [of _ a6]) simp_all
qed

lemma loop_body_Halt_shape:
  assumes "loop_body env fm i w = Some (Halt acts w')"
  shows "same_config w' w \<and>
     (\<exists>pre. set pre \<subseteq> {FocusPaused, IdleSleep} \<and>
        ((acts = pre @ [Stopped] \<and> stop_flag w')
         \<or> (\<exists>i' a4 e. emit_unit env fm i w = (i', a4, Some e) \<and> acts = pre @ a4 @ [Error e])
         \<or> (\<exists>i' a4 a6 e. \<not> fm \<and> emit_unit env fm i w = (i', a4, None)
               \<and> unit_delay env w (randint_raw env i) = (a6, Some e)
               \<and> acts = pre @ a4 @ [ProgressChanged (percent i' (length (text_str w)))] @ a6 @ [Error e])))"
proof (cases "stop_flag (apply_calls (calls_top env i) w)")
  case True
  with assms have "acts = [] @ [Stopped]" "w' = apply_calls (calls_top env i) w"
    unfolding loop_body_def Let_def by simp_all
  with True same_config_apply_calls [of "calls_top env i" w] show ?thesis
    by (intro conjI exI [of _ "[]"]) simp_all
next
  case False
  let ?w1 = "apply_calls (calls_top env i) w"
  let ?cf = "check_focus env i ?w1"
  obtain w2 a2 where cf: "?cf = (w2, a2)" by (cases ?cf) auto
  show ?thesis
  proof (cases "pause_wait w2 (calls_idle env i)")
    case None
    with assms False cf show ?thesis by (simp add: loop_body_def Let_def)
  next
    case (Some r)
    obtain w3 a3 where r: "r = (w3, a3)" by (cases r) auto
    have pw: "pause_wait (fst ?cf) (calls_idle env i) = Some (w3, a3)"
      using cf Some r by simp
    from loop_body_reach [OF pw] have sc: "same_config w3 w"
      and pre: "set (a2 @ a3) \<subseteq> {FocusPaused, IdleSleep}" using cf by simp_all
    have t: "text_str w3 = text_str w" using sc by (simp add: same_config_def)
    show ?thesis
    proof (cases "stop_flag w3")
      case True
      with assms False cf Some r have "acts = (a2 @ a3) @ [Stopped]" "w' = w3"
        by (simp_all add: loop_body_def Let_def)
      with True sc pre show ?thesis
        by (intro conjI exI [of _ "a2 @ a3"]) simp_all
    next
      case ns: False
      obtain i' a4 e4 where e: "emit_unit env fm i w3 = (i', a4, e4)"
        by (cases "emit_unit env fm i w3") auto
      obtain a6 e6 where d: "unit_delay env w3 (randint_raw env i) = (a6, e6)"
        by (cases "unit_delay env w3 (randint_raw env i)") auto
      have e': "emit_unit env fm i w = (i', a4, e4)"
        using e emit_unit_text [OF t] by simp
      have d': "unit_delay env w (randint_raw env i) = (a6, e6)"
        using d unit_delay_config [OF sc] by simp
      from assms False cf Some r ns e d
      have w': "w' = apply_calls (calls_emit env i) w3"
        by (cases e4; cases fm; cases e6) (auto simp: loop_body_def Let_def)
      have sc': "same_config w' w"
        unfolding w' using same_config_apply_calls [of "calls_emit env i" w3] sc
        by (rule same_config_trans)
      from assms False cf Some r ns e d
      have "(\<exists>x. e4 = Some x \<and> acts = (a2 @ a3) @ a4 @ [Error x])
          \<or> (\<exists>x. e4 = None \<and> \<not> fm \<and> e6 = Some x
               \<and> acts = (a2 @ a3) @ a4 @ [ProgressChanged (percent i' (length (text_str w3)))]
                          @ a6 @ [Error x])"
        by (cases e4; cases fm; cases e6) (auto simp: loop_body_def Let_def)
      then consider
        (raised) x where "e4 = Some x" "acts = (a2 @ a3) @ a4 @ [Error x]"
        | (delay) x where "e4 = None" "\<not> fm" "e6 = Some x"
            "acts = (a2 @ a3) @ a4 @ [ProgressChanged (percent i' (length (text_str w3)))]
                      @ a6 @ [Error x]"
        by blast
      then have "\<exists>pre. set pre \<subseteq> {FocusPaused, IdleSleep} \<and>
        ((acts = pre @ [Stopped] \<and> stop_flag w')
         \<or> (\<exists>i' a4 e. emit_unit env fm i w = (i', a4, Some e) \<and> acts = pre @ a4 @ [Error e])
         \<or> (\<exists>i' a4 a6 e. \<not> fm \<and> emit_unit env fm i w = (i', a4, None)
               \<and> unit_delay env w (randint_raw env i) = (a6, Some e)
               \<and> acts = pre @ a4 @ [ProgressChanged (percent i' (length (text_str w)))] @ a6 @ [Error e]))"
      proof cases
        case raised
        with e' pre show ?thesis by (intro exI [of _ "a2 @ a3"]) simp
      next
        case delay
        with e' d' pre t show ?thesis by (intro exI [of _ "a2 @ a3"]) simp
      qed
      with sc' show ?thesis by simp
    qed
  qed
qed

section \<open>Every action of a run comes from one pass\<close>

fun is_typing :: "action \<Rightarrow> bool" where
  "is_typing (KeyboardWrite s) = True"
| "is_typing (PyautoWrite s) = True"
| "is_typing (PyautoPress k) = True"
| "is_typing a = False"

lemma type_char_acts:
  "type_char kb pg ch = (acts, e) \<Longrightarrow> (\<forall>a \<in> set acts. is_typing a) \<and> (e = None \<or> e = pg)"
  by (auto simp: type_char_def safe_write_def split: if_splits)

lemma fast_type_chunk_acts:
  "fast_type_chunk kb pg c = (acts, e) \<Longrightarrow> (\<forall>a \<in> set acts. is_typing a) \<and> (e = None \<or> e = pg)"
  by (auto simp: fast_type_chunk_def safe_write_def split: if_splits)

lemma emit_unit_acts:
  assumes "emit_unit env fm i w = (i', acts, e)"
  shows "(\<forall>a \<in> set acts. is_typing a)
       \<and> (e = None \<or> e = map_option PyautoguiError (pyautogui_raises env i))"
proof (cases "fm \<and> is_fast_char (text_str w ! i)")
  case True
  with assms obtain c where
    "fast_type_chunk (keyboard_raises env i) (map_option PyautoguiError (pyautogui_raises env i)) c = (acts, e)"
    by (auto simp: emit_unit_def Let_def split: prod.splits)
  then show ?thesis by (rule fast_type_chunk_acts)
next
  case False
  with assms have
    "type_char (keyboard_raises env i) (map_option PyautoguiError (pyautogui_raises env i))
       (text_str w ! i) = (acts, e)"
    by (auto simp: emit_unit_def Let_def split: prod.splits)
  then show ?thesis by (rule type_char_acts)
qed

lemma run_loop_actions:
  assumes "run_loop env fm i w = Some (tr, w')" and "same_config w w0"
    and "\<And>j v acts v'. same_config v w0 \<Longrightarrow> j < length (text_str v) \<Longrightarrow>
                 loop_body env fm j v = Some (Halt acts v') \<Longrightarrow> \<forall>a \<in> set acts. Q a"
    and "\<And>j v j' acts v'. same_config v w0 \<Longrightarrow> j < length (text_str v) \<Longrightarrow>
                 loop_body env fm j v = Some (Next j' acts v') \<Longrightarrow> \<forall>a \<in> set acts. Q a"
    and "Q Finished"
  shows "(\<forall>a \<in> set tr. Q a) \<and> same_config w' w0"
  using assms
proof (induction env fm i w arbitrary: tr rule: run_loop.induct)
  case (1 env fm i w)
  note run = "1.prems"(1) and cfg = "1.prems"(2) and halt = "1.prems"(3)
    and nxt = "1.prems"(4) and fin = "1.prems"(5)
  show ?case
  proof (cases "i < length (text_str w)")
    case False
    with run cfg fin show ?thesis by (auto simp: run_loop_end)
  next
    case lt: True
    show ?thesis
    proof (cases "loop_body env fm i w")
      case None
      with lt run show ?thesis by (simp add: run_loop_rec)
    next
      case (Some st)
      show ?thesis
      proof (cases st)
        case (Halt acts v')
        with Some lt run have eq: "tr = acts" "w' = v'" by (simp_all add: run_loop_rec)
        have b: "loop_body env fm i w = Some (Halt acts v')" using Some Halt by simp
        have "same_config v' w" using loop_body_Halt_shape [OF b] by blast
        with cfg have "same_config v' w0" by (rule same_config_trans [rotated])
        moreover have "\<forall>a \<in> set acts. Q a" by (rule halt [OF cfg lt b])
        ultimately show ?thesis by (simp add: eq)
      next
        case (Next i' acts v')
        with Some lt run obtain rest where
          r: "run_loop env fm i' v' = Some (rest, w')" and eq: "tr = acts @ rest"
          by (auto simp: run_loop_rec split: option.splits)
        have b: "loop_body env fm i w = Some (Next i' acts v')" using Some Next by simp
        have "same_config v' w" using loop_body_Next_shape [OF b] by blast
        with cfg have sc: "same_config v' w0" by (rule same_config_trans [rotated])
        have "(\<forall>a \<in> set rest. Q a) \<and> same_config w' w0"
        proof (rule "1.IH" [OF lt Some Next r sc])
          fix j v acts v'
          assume "same_config v w0" "j < length (text_str v)"
            "loop_body env fm j v = Some (Halt acts v')"
          then show "\<forall>a \<in> set acts. Q a" by (rule halt)
        next
          fix j v j' acts v'
          assume "same_config v w0" "j < length (text_str v)"
            "loop_body env fm j v = Some (Next j' acts v')"
          then show "\<forall>a \<in> set acts. Q a" by (rule nxt)
        next
          show "Q Finished" by (rule fin)
        qed
        moreover have "\<forall>a \<in> set acts. Q a" by (rule nxt [OF cfg lt b])
        ultimately show ?thesis by (auto simp: eq)
      qed
    qed
  qed
qed

text \<open>
  \<open>from_pass env fm w j a\<close>: the action \<open>a\<close> is one that the pass at cursor \<open>j\<close> can
  produce besides the focus notification, the idle sleeps and the stop signal: a call made
  while typing the unit, the progress signal, a jitter draw or delay sleep, or the error
  signal of an exception raised there.
\<close>

definition from_pass :: "env \<Rightarrow> bool \<Rightarrow> worker \<Rightarrow> nat \<Rightarrow> action \<Rightarrow> bool" where
  "from_pass env fm w j a \<longleftrightarrow>
     a \<in> set (fst (snd (emit_unit env fm j w)))
     \<or> a = ProgressChanged (percent (fst (emit_unit env fm j w)) (length (text_str w)))
     \<or> (\<not> fm \<and> a \<in> set (fst (unit_delay env w (randint_raw env j))))
     \<or> (\<exists>e. a = Error e \<and> snd (snd (emit_unit env fm j w)) = Some e)
     \<or> (\<exists>e. a = Error e \<and> \<not> fm \<and> snd (unit_delay env w (randint_raw env j)) = Some e)"

lemma from_pass_config:
  "same_config v w \<Longrightarrow> from_pass env fm v j a = from_pass env fm w j a"
  unfolding from_pass_def
  using emit_unit_text [of v w env fm j] unit_delay_config [of v w env "randint_raw env j"]
  by (simp add: same_config_def)

lemma Next_action_cases:
  assumes "loop_body env fm i w = Some (Next i' acts w')" "a \<in> set acts"
  shows "a = FocusPaused \<or> a = IdleSleep \<or> from_pass env fm w i a"
proof -
  from loop_body_Next_shape [OF assms(1)] obtain pre a4 a6 where
    pre: "set pre \<subseteq> {FocusPaused, IdleSleep}"
    and e: "emit_unit env fm i w = (i', a4, None)"
    and acts: "acts = pre @ a4 @ [ProgressChanged (percent i' (length (text_str w)))] @ a6"
    and d: "if fm then a6 = [] else unit_delay env w (randint_raw env i) = (a6, None)"
    by blast
  from assms(2) acts consider "a \<in> set pre" | "a \<in> set a4"
    | "a = ProgressChanged (percent i' (length (text_str w)))" | "a \<in> set a6"
    by auto
  then show ?thesis
  proof cases
    case 1
    with pre show ?thesis by auto
  next
    case 2
    with e show ?thesis by (simp add: from_pass_def)
  next
    case 3
    with e show ?thesis by (simp add: from_pass_def)
  next
    case 4
    with d have "\<not> fm \<and> a \<in> set (fst (unit_delay env w (randint_raw env i)))"
      by (auto split: if_splits)
    then show ?thesis by (simp add: from_pass_def)
  qed
qed

lemma Halt_action_cases:
  assumes "loop_body env fm i w = Some (Halt acts w')" "a \<in> set acts"
  shows "a = FocusPaused \<or> a = IdleSleep \<or> a = Stopped \<or> from_pass env fm w i a"
proof -
  from loop_body_Halt_shape [OF assms(1)] obtain pre where
    pre: "set pre \<subseteq> {FocusPaused, IdleSleep}"
    and c: "(acts = pre @ [Stopped] \<and> stop_flag w')
         \<or> (\<exists>i' a4 e. emit_unit env fm i w = (i', a4, Some e) \<and> acts = pre @ a4 @ [Error e])
         \<or> (\<exists>i' a4 a6 e. \<not> fm \<and> emit_unit env fm i w = (i', a4, None)
               \<and> unit_delay env w (randint_raw env i) = (a6, Some e)
               \<and> acts = pre @ a4 @ [ProgressChanged (percent i' (length (text_str w)))] @ a6 @ [Error e])"
    by blast
  from c consider
    (stopped) "acts = pre @ [Stopped]"
    | (raised) i' a4 e where "emit_unit env fm i w = (i', a4, Some e)" "acts = pre @ a4 @ [Error e]"
    | (delay) i' a4 a6 e where "\<not> fm" "emit_unit env fm i w = (i', a4, None)"
        "unit_delay env w (randint_raw env i) = (a6, Some e)"
        "acts = pre @ a4 @ [ProgressChanged (percent i' (length (text_str w)))] @ a6 @ [Error e]"
    by blast
  then show ?thesis
  proof cases
    case stopped
    with assms(2) pre show ?thesis by auto
  next
    case raised
    with assms(2) consider "a \<in> set pre" | "a \<in> set a4" | "a = Error e" by auto
    then show ?thesis
    proof cases
      case 1
      with pre show ?thesis by auto
    next
      case 2
      with raised show ?thesis by (simp add: from_pass_def)
    next
      case 3
      with raised show ?thesis by (simp add: from_pass_def)
    qed
  next
    case delay
    with assms(2) consider "a \<in> set pre" | "a \<in> set a4"
      | "a = ProgressChanged (percent i' (length (text_str w)))" | "a \<in> set a6" | "a = Error e"
      by auto
    then show ?thesis
    proof cases
      case 1
      with pre show ?thesis by auto
    next
      case 2
      with delay show ?thesis by (simp add: from_pass_def)
    next
      case 3
      with delay show ?thesis by (simp add: from_pass_def)
    next
      case 4
      with delay show ?thesis by (simp add: from_pass_def)
    next
      case 5
      with delay show ?thesis by (simp add: from_pass_def)
    qed
  qed
qed

lemma run_loop_action_cases:
  assumes "run_loop env fm i w = Some (tr, w')"
  shows "(\<forall>a \<in> set tr. a = Finished \<or> a = FocusPaused \<or> a = IdleSleep \<or> a = Stopped
            \<or> (\<exists>j < length (text_str w). from_pass env fm w j a))
         \<and> same_config w' w"
proof (rule run_loop_actions [OF assms same_config_refl])
  fix j v acts v'
  assume sc: "same_config v w" and lt: "j < length (text_str v)"
    and b: "loop_body env fm j v = Some (Halt acts v')"
  have j: "j < length (text_str w)" using sc lt by (simp add: same_config_def)
  show "\<forall>a \<in> set acts. a = Finished \<or> a = FocusPaused \<or> a = IdleSleep \<or> a = Stopped
            \<or> (\<exists>j < length (text_str w). from_pass env fm w j a)"
  proof
    fix a assume "a \<in> set acts"
    from Halt_action_cases [OF b this] from_pass_config [OF sc] j
    show "a = Finished \<or> a = FocusPaused \<or> a = IdleSleep \<or> a = Stopped
            \<or> (\<exists>j < length (text_str w). from_pass env fm w j a)"
      by blast
  qed
next
  fix j v j' acts v'
  assume sc: "same_config v w" and lt: "j < length (text_str v)"
    and b: "loop_body env fm j v = Some (Next j' acts v')"
  have j: "j < length (text_str w)" using sc lt by (simp add: same_config_def)
  show "\<forall>a \<in> set acts. a = Finished \<or> a = FocusPaused \<or> a = IdleSleep \<or> a = Stopped
            \<or> (\<exists>j < length (text_str w). from_pass env fm w j a)"
  proof
    fix a assume "a \<in> set acts"
    from Next_action_cases [OF b this] from_pass_config [OF sc] j
    show "a = Finished \<or> a = FocusPaused \<or> a = IdleSleep \<or> a = Stopped
            \<or> (\<exists>j < length (text_str w). from_pass env fm w j a)"
      by blast
  qed
next
  show "Finished = Finished \<or> Finished = FocusPaused \<or> Finished = IdleSleep \<or> Finished = Stopped
            \<or> (\<exists>j < length (text_str w). from_pass env fm w j Finished)"
    by simp
qed

lemma run_action_cases:
  assumes "run env w = Some (tr, w')"
  shows "(\<forall>a \<in> set tr. a = Finished \<or> a = FocusPaused \<or> a = IdleSleep \<or> a = Stopped
            \<or> (\<exists>j < length (text_str w).
                  from_pass env (base_delay_ms w = 0 \<and> \<not> use_random w) w j a))
         \<and> same_config w' w"
proof (cases "length (text_str w) = 0")
  case True
  with assms show ?thesis by (auto simp: run_def)
next
  case False
  with assms have "run_loop env (base_delay_ms w = 0 \<and> \<not> use_random w) 0 w = Some (tr, w')"
    by (simp add: run_def Let_def)
  then show ?thesis by (rule run_loop_action_cases)
qed

lemma randint_range:
  assumes "a \<le> b"
  shows "\<exists>j. randint a b raw = Inr j \<and> a \<le> j \<and> j \<le> b"
proof -
  have p: "0 < b - a + 1" using assms by simp
  have "0 \<le> int raw mod (b - a + 1)" using p by (rule pos_mod_sign)
  moreover have "int raw mod (b - a + 1) < b - a + 1" using p by (rule pos_mod_bound)
  ultimately have "a \<le> a + int raw mod (b - a + 1)" "a + int raw mod (b - a + 1) \<le> b"
    by linarith+
  moreover have "randint a b raw = Inr (a + int raw mod (b - a + 1))"
    using assms by (simp add: randint_def)
  ultimately show ?thesis by blast
qed

lemma unit_delay_ok:
  "rand_min_ms w \<le> rand_max_ms w \<Longrightarrow> snd (unit_delay env w raw) \<noteq> Some RandintEmptyRange"
  using randint_range [of "rand_min_ms w" "rand_max_ms w" raw]
  by (auto simp: unit_delay_def Let_def sleep_ms_def split: if_splits)

lemma unit_delay_RandInt:
  assumes "RandInt lo hi j \<in> set (fst (unit_delay env w raw))"
  shows "lo = rand_min_ms w \<and> hi = rand_max_ms w \<and> lo \<le> j \<and> j \<le> hi"
proof (cases "rand_max_ms w < rand_min_ms w")
  case True
  with assms show ?thesis
    by (auto simp: unit_delay_def Let_def randint_def sleep_ms_def split: if_splits)
next
  case False
  then obtain j' where j': "randint (rand_min_ms w) (rand_max_ms w) raw = Inr j'"
    "rand_min_ms w \<le> j'" "j' \<le> rand_max_ms w"
    using randint_range [of "rand_min_ms w" "rand_max_ms w" raw] by auto
  with assms show ?thesis
    by (auto simp: unit_delay_def Let_def sleep_ms_def split: if_splits)
qed

lemma emit_unit_typing: "a \<in> set (fst (snd (emit_unit env fm j w))) \<Longrightarrow> is_typing a"
proof -
  assume a: "a \<in> set (fst (snd (emit_unit env fm j w)))"
  obtain i' acts e0 where u: "emit_unit env fm j w = (i', acts, e0)"
    by (cases "emit_unit env fm j w") auto
  with a emit_unit_acts [OF u] show ?thesis by simp
qed

lemma emit_unit_exc:
  "snd (snd (emit_unit env fm j w)) = Some e \<Longrightarrow>
     \<exists>m. e = PyautoguiError m \<and> pyautogui_raises env j = Some m"
proof -
  assume a: "snd (snd (emit_unit env fm j w)) = Some e"
  obtain i' acts e0 where u: "emit_unit env fm j w = (i', acts, e0)"
    by (cases "emit_unit env fm j w") auto
  with a have "e0 = Some e" by simp
  with emit_unit_acts [OF u] show ?thesis by (cases "pyautogui_raises env j") auto
qed

lemma init_bounds:
  "rand_min_ms (TypingWorker_init tx base rnd a b title) = min a b
   \<and> rand_max_ms (TypingWorker_init tx base rnd a b title) = max a b"
  by (simp add: TypingWorker_init_def Let_def min_def max_def)

lemma idle_replicate: "set a \<subseteq> {IdleSleep} \<Longrightarrow> a = replicate (length a) IdleSleep"
  by (induction a) auto

lemma loop_body_prefix:
  assumes b: "loop_body env fm i w = Some st"
    and ns: "\<not> stop_flag (apply_calls (calls_top env i) w)"
  shows "\<exists>w3 a3 rest.
      pause_wait (fst (check_focus env i (apply_calls (calls_top env i) w))) (calls_idle env i)
        = Some (w3, a3)
      \<and> step_actions st = snd (check_focus env i (apply_calls (calls_top env i) w)) @ a3 @ rest
      \<and> (rest = [Stopped] \<or> (\<exists>more. rest = fst (snd (emit_unit env fm i w3)) @ more))
      \<and> (\<forall>i' acts v. st = Next i' acts v \<longrightarrow> i' = fst (emit_unit env fm i w3))"
proof -
  let ?cf = "check_focus env i (apply_calls (calls_top env i) w)"
  obtain w2 a2 where cf: "?cf = (w2, a2)" by (cases ?cf) auto
  show ?thesis
  proof (cases "pause_wait w2 (calls_idle env i)")
    case None
    with b ns cf show ?thesis by (simp add: loop_body_def Let_def)
  next
    case (Some r)
    obtain w3 a3 where r: "r = (w3, a3)" by (cases r) auto
    show ?thesis
    proof (cases "stop_flag w3")
      case True
      with b ns cf Some r have "st = Halt (a2 @ a3 @ [Stopped]) w3"
        by (simp add: loop_body_def Let_def)
      with cf Some r show ?thesis by simp
    next
      case False
      obtain i' a4 e4 where e: "emit_unit env fm i w3 = (i', a4, e4)"
        by (cases "emit_unit env fm i w3") auto
      obtain a6 e6 where d: "unit_delay env w3 (randint_raw env i) = (a6, e6)"
        by (cases "unit_delay env w3 (randint_raw env i)") auto
      from b ns cf Some r False e d
      have "\<exists>more. step_actions st = a2 @ a3 @ a4 @ more"
        by (cases e4; cases fm; cases e6) (auto simp: loop_body_def Let_def)
      moreover from b ns cf Some r False e d
      have "\<forall>j acts v. st = Next j acts v \<longrightarrow> j = i'"
        by (cases e4; cases fm; cases e6) (auto simp: loop_body_def Let_def)
      ultimately show ?thesis using cf Some r e by auto
    qed
  qed
qed

section \<open>Chunks, terminal signals and runs that do not return\<close>

lemma chunk_loop_eq:
  "length c \<le> 40 \<Longrightarrow>
   chunk_loop tx i c =
     (i + length (take (40 - length c) (takeWhile is_fast_char (drop i tx))),
      c @ take (40 - length c) (takeWhile is_fast_char (drop i tx)))"
proof (induction tx i c rule: chunk_loop.induct)
  case (1 tx i c)
  show ?case
  proof (cases "i < length tx \<and> length c < 40 \<and> is_fast_char (tx ! i)")
    case True
    then have d: "drop i tx = tx ! i # drop (Suc i) tx"
      by (simp add: Cons_nth_drop_Suc)
    have s: "40 - length c = Suc (40 - length (c @ [tx ! i]))"
    proof -
      have "length c < 40" using True by simp
      then show ?thesis by (simp only: length_append) simp
    qed
    have "chunk_loop tx i c = chunk_loop tx (Suc i) (c @ [tx ! i])"
      using True by (simp add: chunk_loop_rec)
    also have "\<dots> = (Suc i + length (take (40 - length (c @ [tx ! i]))
                          (takeWhile is_fast_char (drop (Suc i) tx))),
                     (c @ [tx ! i]) @ take (40 - length (c @ [tx ! i]))
                          (takeWhile is_fast_char (drop (Suc i) tx)))"
      using "1.IH" True by simp
    finally show ?thesis
      using True unfolding d s by simp
  next
    case False
    then have st: "chunk_loop tx i c = (i, c)" by (simp add: chunk_loop_stop)
    from False consider "length tx \<le> i" | "length c = 40" | "i < length tx" "\<not> is_fast_char (tx ! i)"
      using "1.prems" by force
    then have tk: "take (40 - length c) (takeWhile is_fast_char (drop i tx)) = []"
    proof cases
      case 1
      then show ?thesis by simp
    next
      case 2
      then show ?thesis by simp
    next
      case 3
      then have "drop i tx = tx ! i # drop (Suc i) tx" by (simp add: Cons_nth_drop_Suc)
      with 3 show ?thesis by simp
    qed
    show ?thesis by (simp only: st tk) simp
  qed
qed

lemma type_char_single:
  assumes "KeyboardWrite s \<in> set (fst (type_char kb pg ch)) \<or> PyautoWrite s \<in> set (fst (type_char kb pg ch))"
  shows "s = [ch]"
  using assms by (auto simp: type_char_def safe_write_def split: if_splits)

lemma unit_delay_kinds:
  "a \<in> set (fst (unit_delay env w raw)) \<Longrightarrow> (\<exists>lo hi j. a = RandInt lo hi j) \<or> (\<exists>d. a = DelaySleep d)"
  by (auto simp: unit_delay_def Let_def sleep_ms_def split: if_splits sum.splits)

lemma typing_not_terminal: "is_typing a \<Longrightarrow> \<not> is_terminal a"
  by (cases a) simp_all

lemma pre_not_terminal: "set pre \<subseteq> {FocusPaused, IdleSleep} \<Longrightarrow> \<forall>a \<in> set pre. \<not> is_terminal a"
  by auto

lemma emit_not_terminal:
  "emit_unit env fm i w = (i', a4, e) \<Longrightarrow> \<forall>a \<in> set a4. \<not> is_terminal a"
  using emit_unit_acts typing_not_terminal by blast

lemma delay_not_terminal:
  "unit_delay env w raw = (a6, e) \<Longrightarrow> \<forall>a \<in> set a6. \<not> is_terminal a"
  using unit_delay_kinds [of _ env w raw] by fastforce

lemma Next_not_terminal:
  assumes "loop_body env fm i w = Some (Next i' acts w')"
  shows "\<forall>a \<in> set acts. \<not> is_terminal a"
proof -
  from loop_body_Next_shape [OF assms] obtain pre a4 a6 where
    pre: "set pre \<subseteq> {FocusPaused, IdleSleep}"
    and e: "emit_unit env fm i w = (i', a4, None)"
    and acts: "acts = pre @ a4 @ [ProgressChanged (percent i' (length (text_str w)))] @ a6"
    and d: "if fm then a6 = [] else unit_delay env w (randint_raw env i) = (a6, None)"
    by blast
  have "\<forall>a \<in> set a6. \<not> is_terminal a"
    using d delay_not_terminal by (cases fm) auto
  with pre_not_terminal [OF pre] emit_not_terminal [OF e] show ?thesis
    by (auto simp: acts)
qed

lemma Halt_terminal:
  assumes "loop_body env fm i w = Some (Halt acts w')"
  shows "\<exists>body t. acts = body @ [t] \<and> is_terminal t \<and> (\<forall>a \<in> set body. \<not> is_terminal a)
           \<and> t \<noteq> Finished"
proof -
  from loop_body_Halt_shape [OF assms] obtain pre where
    pre: "set pre \<subseteq> {FocusPaused, IdleSleep}"
    and c: "(acts = pre @ [Stopped] \<and> stop_flag w')
         \<or> (\<exists>i' a4 e. emit_unit env fm i w = (i', a4, Some e) \<and> acts = pre @ a4 @ [Error e])
         \<or> (\<exists>i' a4 a6 e. \<not> fm \<and> emit_unit env fm i w = (i', a4, None)
               \<and> unit_delay env w (randint_raw env i) = (a6, Some e)
               \<and> acts = pre @ a4 @ [ProgressChanged (percent i' (length (text_str w)))] @ a6 @ [Error e])"
    by blast
  note p = pre_not_terminal [OF pre]
  from c consider
    (stopped) "acts = pre @ [Stopped]"
    | (raised) i' a4 e where "emit_unit env fm i w = (i', a4, Some e)" "acts = pre @ a4 @ [Error e]"
    | (delay) i' a4 a6 e where "emit_unit env fm i w = (i', a4, None)"
        "unit_delay env w (randint_raw env i) = (a6, Some e)"
        "acts = pre @ a4 @ [ProgressChanged (percent i' (length (text_str w)))] @ a6 @ [Error e]"
    by blast
  then show ?thesis
  proof cases
    case stopped
    with p show ?thesis by (intro exI [of _ pre] exI [of _ Stopped]) simp
  next
    case raised
    from emit_not_terminal [OF raised(1)] p raised(2) show ?thesis
      by (intro exI [of _ "pre @ a4"] exI [of _ "Error e"]) auto
  next
    case delay
    from emit_not_terminal [OF delay(1)] delay_not_terminal [OF delay(2)] p delay(3)
    show ?thesis
      by (intro exI [of _ "pre @ a4 @ [ProgressChanged (percent i' (length (text_str w)))] @ a6"]
            exI [of _ "Error e"]) auto
  qed
qed

lemma run_loop_terminal:
  assumes "run_loop env fm i w = Some (tr, w')"
  shows "\<exists>body t. tr = body @ [t] \<and> is_terminal t \<and> (\<forall>a \<in> set body. \<not> is_terminal a)"
  using assms
proof (induction env fm i w arbitrary: tr rule: run_loop.induct)
  case (1 env fm i w)
  show ?case
  proof (cases "i < length (text_str w)")
    case False
    with "1.prems" have "tr = [] @ [Finished]" by (simp add: run_loop_end)
    then show ?thesis by (intro exI [of _ "[]"] exI [of _ Finished]) simp
  next
    case lt: True
    show ?thesis
    proof (cases "loop_body env fm i w")
      case None
      with lt "1.prems" show ?thesis by (simp add: run_loop_rec)
    next
      case (Some st)
      show ?thesis
      proof (cases st)
        case (Halt acts v')
        with Some lt "1.prems" have eq: "tr = acts" by (simp add: run_loop_rec)
        have "loop_body env fm i w = Some (Halt acts v')" using Some Halt by simp
        from Halt_terminal [OF this] show ?thesis unfolding eq by blast
      next
        case (Next i' acts v')
        with Some lt "1.prems" obtain rest where
          r: "run_loop env fm i' v' = Some (rest, w')" and eq: "tr = acts @ rest"
          by (auto simp: run_loop_rec split: option.splits)
        have b: "loop_body env fm i w = Some (Next i' acts v')" using Some Next by simp
        from "1.IH" [OF lt Some Next r] obtain body t where
          rest: "rest = body @ [t]" and t: "is_terminal t" and nb: "\<forall>a \<in> set body. \<not> is_terminal a"
          by blast
        from Next_not_terminal [OF b] nb have "\<forall>a \<in> set (acts @ body). \<not> is_terminal a"
          by auto
        with t rest eq show ?thesis
          by (intro exI [of _ "acts @ body"] exI [of _ t]) simp
      qed
    qed
  qed
qed

lemma run_terminal:
  assumes "run env w = Some (tr, w')"
  shows "\<exists>body t. tr = body @ [t] \<and> is_terminal t \<and> (\<forall>a \<in> set body. \<not> is_terminal a)"
proof (cases "length (text_str w) = 0")
  case True
  with assms have "tr = [] @ [Finished]" by (simp add: run_def)
  then show ?thesis by (intro exI [of _ "[]"] exI [of _ Finished]) simp
next
  case False
  with assms have "run_loop env (base_delay_ms w = 0 \<and> \<not> use_random w) 0 w = Some (tr, w')"
    by (simp add: run_def Let_def)
  then show ?thesis by (rule run_loop_terminal)
qed

lemma loop_body_None:
  assumes "loop_body env fm i w = None"
  shows "pause_wait (fst (check_focus env i (apply_calls (calls_top env i) w))) (calls_idle env i) = None"
proof (rule ccontr)
  obtain w2 a2 where cf: "check_focus env i (apply_calls (calls_top env i) w) = (w2, a2)"
    by (cases "check_focus env i (apply_calls (calls_top env i) w)") auto
  assume "pause_wait (fst (check_focus env i (apply_calls (calls_top env i) w))) (calls_idle env i) \<noteq> None"
  then obtain w3 a3 where pw: "pause_wait w2 (calls_idle env i) = Some (w3, a3)"
    using cf by auto
  obtain i' a4 e4 where e: "emit_unit env fm i w3 = (i', a4, e4)"
    by (cases "emit_unit env fm i w3") auto
  obtain a6 e6 where d: "unit_delay env w3 (randint_raw env i) = (a6, e6)"
    by (cases "unit_delay env w3 (randint_raw env i)") auto
  from cf pw e d have "loop_body env fm i w \<noteq> None"
    by (cases e4; cases fm; cases e6; cases "stop_flag w3")
       (simp_all add: loop_body_def Let_def)
  with assms show False by simp
qed

lemma run_loop_None:
  assumes "run_loop env fm i w = None"
  shows "\<exists>j v. i \<le> j \<and> j < length (text_str w) \<and> same_config v w
           \<and> pause_wait v (calls_idle env j) = None"
  using assms
proof (induction env fm i w rule: run_loop.induct)
  case (1 env fm i w)
  have lt: "i < length (text_str w)"
    using "1.prems" by (cases "i < length (text_str w)") (simp_all add: run_loop_end)
  show ?case
  proof (cases "loop_body env fm i w")
    case None
    let ?v = "fst (check_focus env i (apply_calls (calls_top env i) w))"
    have "same_config ?v w"
      using same_config_check_focus [of env i "apply_calls (calls_top env i) w"]
        same_config_apply_calls [of "calls_top env i" w]
      by (rule same_config_trans)
    with loop_body_None [OF None] lt show ?thesis by blast
  next
    case (Some st)
    show ?thesis
    proof (cases st)
      case (Halt acts v')
      with Some lt "1.prems" show ?thesis by (simp add: run_loop_rec)
    next
      case (Next i' acts v')
      with Some lt "1.prems" have r: "run_loop env fm i' v' = None"
        by (auto simp: run_loop_rec split: option.splits prod.splits)
      have b: "loop_body env fm i w = Some (Next i' acts v')" using Some Next by simp
      from loop_body_Next_progress [OF b lt] have ii: "i < i'" and tx: "text_str v' = text_str w"
        by simp_all
      have sc: "same_config v' w" using loop_body_Next_shape [OF b] by blast
      from "1.IH" [OF lt Some Next r] obtain j v where
        "i' \<le> j" "j < length (text_str v')" "same_config v v'" "pause_wait v (calls_idle env j) = None"
        by blast
      with ii tx same_config_trans [OF _ sc] show ?thesis
        by (intro exI [of _ j] exI [of _ v]) auto
    qed
  qed
qed

lemma pause_wait_stopped: "stop_flag v \<Longrightarrow> pause_wait v ts = Some (v, [])"
  by (cases ts) simp_all

lemma pause_wait_None_entry: "pause_wait v ts = None \<Longrightarrow> pause_flag v \<and> \<not> stop_flag v"
  by (cases ts) (simp_all split: if_splits)

lemma loop_body_stop_seen:
  assumes pw: "pause_wait (fst (check_focus env i (apply_calls (calls_top env i) w))) (calls_idle env i)
                 = Some (w3, a3)"
    and st: "stop_flag w3"
  shows "\<exists>pre. set pre \<subseteq> {FocusPaused, IdleSleep}
           \<and> loop_body env fm i w = Some (Halt (pre @ [Stopped]) w3)"
proof (cases "stop_flag (apply_calls (calls_top env i) w)")
  case True
  let ?w1 = "apply_calls (calls_top env i) w"
  from True have cf: "check_focus env i ?w1 = (?w1, [])" by (simp add: check_focus_def)
  with pw pause_wait_stopped [OF True, of "calls_idle env i"] have "w3 = ?w1" by simp
  with True have "loop_body env fm i w = Some (Halt ([] @ [Stopped]) w3)"
    by (simp add: loop_body_def Let_def)
  then show ?thesis by (intro exI [of _ "[]"]) simp
next
  case False
  let ?cf = "check_focus env i (apply_calls (calls_top env i) w)"
  obtain w2 a2 where cf: "?cf = (w2, a2)" by (cases ?cf) auto
  with pw have pw2: "pause_wait w2 (calls_idle env i) = Some (w3, a3)" by simp
  from False cf pw2 st have "loop_body env fm i w = Some (Halt ((a2 @ a3) @ [Stopped]) w3)"
    by (simp add: loop_body_def Let_def)
  moreover have "set (a2 @ a3) \<subseteq> {FocusPaused, IdleSleep}"
    using loop_body_reach [OF pw] cf by simp
  ultimately show ?thesis by blast
qed

lemma unit_delay_exc:
  "snd (unit_delay env w raw) = Some e \<Longrightarrow>
     (e = RandintEmptyRange \<and> use_random w \<and> rand_max_ms w < rand_min_ms w)
     \<or> (e = SleepOverflow
         \<and> (\<exists>d. 0 < d \<and> sleep_overflows env d \<and> DelaySleep d \<in> set (fst (unit_delay env w raw))))"
  by (auto simp: unit_delay_def Let_def randint_def sleep_ms_def split: if_splits)

lemma terminal_unique:
  assumes "tr = body @ [t]" "\<forall>a \<in> set body. \<not> is_terminal a" "x \<in> set tr" "is_terminal x"
  shows "last tr = x \<and> t = x"
  using assms by auto

lemma run_loop_stop_eventually:
  assumes "\<forall>j < length (text_str w). \<exists>cs \<in> set (calls_idle env j). CallStop \<in> set cs"
  shows "\<exists>r. run_loop env fm i w = Some r"
proof (rule ccontr)
  assume "\<not> (\<exists>r. run_loop env fm i w = Some r)"
  then have "run_loop env fm i w = None" by (cases "run_loop env fm i w") auto
  from run_loop_None [OF this] obtain j v where
    "j < length (text_str w)" "pause_wait v (calls_idle env j) = None" by blast
  with assms pause_wait_stop_eventually [of "calls_idle env j" v] show False by blast
qed

lemmas hotkey_simps = on_hotkey_committed_def register_hotkey_def set_hotkey_display_def
  canonicalize_sequence_def canonical_part_def startswith_def isdigit_def lower_def strip_def
  is_space_def py_def MainWindow_init_def set_idle_def update_status_def reset_timers_def Let_def

section \<open>Passes and the pause loop\<close>

lemma passes_stop: "\<not> i < length (text_str w) \<Longrightarrow> passes env fm i w = []"
  by (subst passes.simps) simp

lemma passes_rec:
  "i < length (text_str w) \<Longrightarrow>
   passes env fm i w = (i, w) # (case loop_body env fm i w of
                       None \<Rightarrow> []
                     | Some (Halt acts w') \<Rightarrow> []
                     | Some (Next i' acts w') \<Rightarrow> passes env fm i' w')"
  by (subst passes.simps) simp

lemma unit_starts_rec:
  "i < length tx \<Longrightarrow> unit_starts fm tx i = i # unit_starts fm tx (next_cursor fm tx i)"
  by (subst unit_starts.simps) simp

lemma unit_starts_stop: "\<not> i < length tx \<Longrightarrow> unit_starts fm tx i = []"
  by (subst unit_starts.simps) simp

lemma unit_ends_rec:
  "i < length tx \<Longrightarrow> unit_ends fm tx i = next_cursor fm tx i # unit_ends fm tx (next_cursor fm tx i)"
  by (simp add: unit_ends_def unit_starts_rec)

lemma unit_ends_stop: "\<not> i < length tx \<Longrightarrow> unit_ends fm tx i = []"
  by (simp add: unit_ends_def unit_starts_stop)

text \<open>The pause loop returns at the first idle tick at which the worker is not waiting.\<close>

lemma idle_state_0 [simp]: "idle_state v ts 0 = v"
  by (simp add: idle_state_def)

lemma idle_state_Suc [simp]: "idle_state v (cs # ts) (Suc k) = idle_state (apply_calls cs v) ts k"
  by (simp add: idle_state_def)

lemma same_config_idle_state: "same_config (idle_state v ts k) v"
proof (induction ts arbitrary: v k)
  case Nil
  show ?case by (simp add: idle_state_def)
next
  case (Cons cs ts)
  show ?case
  proof (cases k)
    case 0
    then show ?thesis by simp
  next
    case (Suc k')
    have "same_config (idle_state (apply_calls cs v) ts k') (apply_calls cs v)" by (rule Cons.IH)
    then show ?thesis
      using same_config_apply_calls [of cs v] by (simp add: Suc same_config_def)
  qed
qed

lemma pause_wait_exact:
  assumes "pause_wait v ts = Some (v', a)"
  shows "\<exists>k \<le> length ts. v' = idle_state v ts k \<and> a = replicate k IdleSleep
           \<and> \<not> waiting (idle_state v ts k) \<and> (\<forall>j < k. waiting (idle_state v ts j))"
  using assms
proof (induction ts arbitrary: v a)
  case Nil
  then show ?case by (auto simp: waiting_def split: if_splits)
next
  case (Cons cs ts)
  show ?case
  proof (cases "pause_flag v \<and> \<not> stop_flag v")
    case False
    with Cons.prems have "v' = v" "a = []" by auto
    with False show ?thesis by (intro exI [of _ 0]) (simp add: waiting_def)
  next
    case True
    with Cons.prems obtain a' where r: "pause_wait (apply_calls cs v) ts = Some (v', a')"
      and a: "a = IdleSleep # a'"
      by (auto split: option.splits)
    from Cons.IH [OF r] obtain k where k: "k \<le> length ts"
      "v' = idle_state (apply_calls cs v) ts k" "a' = replicate k IdleSleep"
      "\<not> waiting (idle_state (apply_calls cs v) ts k)"
      "\<forall>j < k. waiting (idle_state (apply_calls cs v) ts j)"
      by blast
    have "\<forall>j < Suc k. waiting (idle_state v (cs # ts) j)"
    proof (intro allI impI)
      fix j
      assume "j < Suc k"
      then show "waiting (idle_state v (cs # ts) j)"
        using k(5) True by (cases j) (simp_all add: waiting_def)
    qed
    with k a show ?thesis by (intro exI [of _ "Suc k"]) simp
  qed
qed

lemma pause_wait_first:
  assumes "k \<le> length ts" "\<not> waiting (idle_state v ts k)" "\<forall>j < k. waiting (idle_state v ts j)"
  shows "pause_wait v ts = Some (idle_state v ts k, replicate k IdleSleep)"
  using assms
proof (induction ts arbitrary: v k)
  case Nil
  then show ?case by (simp add: waiting_def)
next
  case (Cons cs ts)
  show ?case
  proof (cases k)
    case 0
    with Cons.prems show ?thesis by (auto simp: waiting_def)
  next
    case (Suc k')
    with Cons.prems have w0: "waiting (idle_state v (cs # ts) 0)" by blast
    have "pause_wait (apply_calls cs v) ts
            = Some (idle_state (apply_calls cs v) ts k', replicate k' IdleSleep)"
    proof (rule Cons.IH)
      show "k' \<le> length ts" using Cons.prems(1) Suc by simp
      show "\<not> waiting (idle_state (apply_calls cs v) ts k')" using Cons.prems(2) Suc by simp
      show "\<forall>j < k'. waiting (idle_state (apply_calls cs v) ts j)"
      proof (intro allI impI)
        fix j
        assume "j < k'"
        then have "Suc j < k" using Suc by simp
        with Cons.prems(3) have "waiting (idle_state v (cs # ts) (Suc j))" by blast
        then show "waiting (idle_state (apply_calls cs v) ts j)" by simp
      qed
    qed
    with w0 show ?thesis by (simp add: Suc waiting_def)
  qed
qed

lemma pause_wait_never:
  "pause_wait v ts = None \<longleftrightarrow> (\<forall>k \<le> length ts. waiting (idle_state v ts k))"
proof
  assume n: "pause_wait v ts = None"
  show "\<forall>k \<le> length ts. waiting (idle_state v ts k)"
  proof (rule ccontr)
    assume "\<not> (\<forall>k \<le> length ts. waiting (idle_state v ts k))"
    then have ex: "\<exists>k. k \<le> length ts \<and> \<not> waiting (idle_state v ts k)" by blast
    define k where "k = (LEAST k. k \<le> length ts \<and> \<not> waiting (idle_state v ts k))"
    from ex have p: "k \<le> length ts \<and> \<not> waiting (idle_state v ts k)"
      unfolding k_def by (rule LeastI_ex)
    have "\<forall>j < k. waiting (idle_state v ts j)"
    proof (intro allI impI)
      fix j
      assume lt: "j < k"
      with p have "j \<le> length ts" by simp
      moreover have "\<not> (j \<le> length ts \<and> \<not> waiting (idle_state v ts j))"
        using lt unfolding k_def by (rule not_less_Least)
      ultimately show "waiting (idle_state v ts j)" by simp
    qed
    with p have "pause_wait v ts = Some (idle_state v ts k, replicate k IdleSleep)"
      by (intro pause_wait_first) simp_all
    with n show False by simp
  qed
next
  assume a: "\<forall>k \<le> length ts. waiting (idle_state v ts k)"
  show "pause_wait v ts = None"
  proof (cases "pause_wait v ts")
    case None
    then show ?thesis .
  next
    case (Some r)
    obtain v' acts where "r = (v', acts)" by (cases r) auto
    with Some pause_wait_exact [of v ts v' acts] a show ?thesis by auto
  qed
qed

lemma pause_flag_apply_call: "pause_flag v \<Longrightarrow> c \<noteq> CallResume \<Longrightarrow> pause_flag (apply_call v c)"
  by (cases c) (simp_all add: stop_def pause_def resume_def set_target_window_def)

lemma pause_flag_apply_calls:
  "pause_flag v \<Longrightarrow> CallResume \<notin> set cs \<Longrightarrow> pause_flag (apply_calls cs v)"
  unfolding apply_calls_def
  by (induction cs arbitrary: v) (auto simp: pause_flag_apply_call)

lemma no_stop_apply_call: "\<not> stop_flag v \<Longrightarrow> c \<noteq> CallStop \<Longrightarrow> \<not> stop_flag (apply_call v c)"
  by (cases c) (simp_all add: stop_def pause_def resume_def set_target_window_def)

lemma no_stop_apply_calls:
  "\<not> stop_flag v \<Longrightarrow> CallStop \<notin> set cs \<Longrightarrow> \<not> stop_flag (apply_calls cs v)"
  unfolding apply_calls_def
  by (induction cs arbitrary: v) (auto simp: no_stop_apply_call)

lemma resumed_by_call:
  assumes "pause_flag v" "\<not> pause_flag (idle_state v ts k)"
  shows "\<exists>cs \<in> set (take k ts). CallResume \<in> set cs"
  using assms
proof (induction ts arbitrary: v k)
  case Nil
  then show ?case by (simp add: idle_state_def)
next
  case (Cons cs ts)
  show ?case
  proof (cases k)
    case 0
    with Cons.prems show ?thesis by simp
  next
    case (Suc k')
    show ?thesis
    proof (cases "CallResume \<in> set cs")
      case True
      then show ?thesis by (simp add: Suc)
    next
      case False
      with Cons.prems(1) have "pause_flag (apply_calls cs v)" by (rule pause_flag_apply_calls)
      moreover have "\<not> pause_flag (idle_state (apply_calls cs v) ts k')"
        using Cons.prems(2) Suc by simp
      ultimately have "\<exists>cs \<in> set (take k' ts). CallResume \<in> set cs" by (rule Cons.IH)
      then show ?thesis by (simp add: Suc)
    qed
  qed
qed

lemma stopped_by_call:
  assumes "\<not> stop_flag v" "stop_flag (idle_state v ts k)"
  shows "\<exists>cs \<in> set (take k ts). CallStop \<in> set cs"
  using assms
proof (induction ts arbitrary: v k)
  case Nil
  then show ?case by (simp add: idle_state_def)
next
  case (Cons cs ts)
  show ?case
  proof (cases k)
    case 0
    with Cons.prems show ?thesis by simp
  next
    case (Suc k')
    show ?thesis
    proof (cases "CallStop \<in> set cs")
      case True
      then show ?thesis by (simp add: Suc)
    next
      case False
      with Cons.prems(1) have "\<not> stop_flag (apply_calls cs v)" by (rule no_stop_apply_calls)
      moreover have "stop_flag (idle_state (apply_calls cs v) ts k')"
        using Cons.prems(2) Suc by simp
      ultimately have "\<exists>cs \<in> set (take k' ts). CallStop \<in> set cs" by (rule Cons.IH)
      then show ?thesis by (simp add: Suc)
    qed
  qed
qed

text \<open>What a pass returns, from what it meets.\<close>

lemma loop_body_stopped_top:
  "stop_flag (apply_calls (calls_top env i) w) \<Longrightarrow>
     loop_body env fm i w = Some (Halt [Stopped] (apply_calls (calls_top env i) w))"
  by (simp add: loop_body_def Let_def)

lemma loop_body_waits:
  assumes "\<not> stop_flag (apply_calls (calls_top env i) w)"
    and "pause_wait (fst (check_focus env i (apply_calls (calls_top env i) w))) (calls_idle env i) = None"
  shows "loop_body env fm i w = None"
proof -
  obtain w2 a2 where "check_focus env i (apply_calls (calls_top env i) w) = (w2, a2)"
    by (cases "check_focus env i (apply_calls (calls_top env i) w)") auto
  with assms show ?thesis by (simp add: loop_body_def Let_def)
qed

lemma loop_body_stopped_idle:
  assumes "\<not> stop_flag (apply_calls (calls_top env i) w)"
    and "pause_wait (fst (check_focus env i (apply_calls (calls_top env i) w))) (calls_idle env i)
           = Some (w3, a3)"
    and "stop_flag w3"
  shows "loop_body env fm i w
     = Some (Halt (snd (check_focus env i (apply_calls (calls_top env i) w)) @ a3 @ [Stopped]) w3)"
proof -
  obtain w2 a2 where "check_focus env i (apply_calls (calls_top env i) w) = (w2, a2)"
    by (cases "check_focus env i (apply_calls (calls_top env i) w)") auto
  with assms show ?thesis by (simp add: loop_body_def Let_def)
qed

lemma loop_body_emit:
  assumes ns: "\<not> stop_flag (apply_calls (calls_top env i) w)"
    and pw: "pause_wait (fst (check_focus env i (apply_calls (calls_top env i) w))) (calls_idle env i)
           = Some (w3, a3)"
    and ns3: "\<not> stop_flag w3"
    and e: "emit_unit env fm i w = (i', a4, e4)"
    and d: "unit_delay env w (randint_raw env i) = (a6, e6)"
    and pre: "pre = snd (check_focus env i (apply_calls (calls_top env i) w)) @ a3"
    and w4: "w4 = apply_calls (calls_emit env i) w3"
    and p: "p = ProgressChanged (percent i' (length (text_str w)))"
  shows "loop_body env fm i w = Some
     (case e4 of
        Some x \<Rightarrow> Halt (pre @ a4 @ [Error x]) w4
      | None \<Rightarrow>
          if fm then Next i' (pre @ a4 @ [p]) w4
          else (case e6 of
                  Some x \<Rightarrow> Halt (pre @ a4 @ [p] @ a6 @ [Error x]) w4
                | None \<Rightarrow> Next i' (pre @ a4 @ [p] @ a6) w4))"
proof -
  let ?cf = "check_focus env i (apply_calls (calls_top env i) w)"
  obtain w2 a2 where cf: "?cf = (w2, a2)" by (cases ?cf) auto
  from loop_body_reach [OF pw] have sc: "same_config w3 w" by simp
  then have t: "text_str w3 = text_str w" by (simp add: same_config_def)
  have e3: "emit_unit env fm i w3 = (i', a4, e4)" using e emit_unit_text [OF t] by simp
  have d3: "unit_delay env w3 (randint_raw env i) = (a6, e6)"
    using d unit_delay_config [OF sc] by simp
  from pw cf have pw2: "pause_wait w2 (calls_idle env i) = Some (w3, a3)" by simp
  show ?thesis
    using ns cf pw2 ns3 e3 d3 t
    by (cases e4; cases fm; cases e6) (simp_all add: loop_body_def Let_def pre w4 p)
qed

text \<open>A run is the actions of its passes, one after the other.\<close>

lemma passes_first: "i < length (text_str w) \<Longrightarrow> hd (passes env fm i w) = (i, w)"
  by (simp add: passes_rec)

lemma passes_tail:
  assumes "(j, v) \<in> set (passes env fm i w)" "(j, v) \<noteq> (i, w)"
  shows "\<exists>i' acts w'. loop_body env fm i w = Some (Next i' acts w')
           \<and> (j, v) \<in> set (passes env fm i' w') \<and> i < length (text_str w)"
proof (cases "i < length (text_str w)")
  case False
  with assms show ?thesis by (simp add: passes_stop)
next
  case lt: True
  show ?thesis
  proof (cases "loop_body env fm i w")
    case None
    with assms lt show ?thesis by (simp add: passes_rec)
  next
    case (Some st)
    show ?thesis
    proof (cases st)
      case (Halt acts w')
      with Some assms lt show ?thesis by (simp add: passes_rec)
    next
      case (Next i' acts w')
      with Some assms lt show ?thesis by (auto simp: passes_rec)
    qed
  qed
qed

lemma passes_run_loop:
  assumes "(j, v) \<in> set (passes env fm i w)"
  shows "same_config v w \<and> i \<le> j \<and> j < length (text_str w)
       \<and> (\<exists>pre. (\<forall>a \<in> set pre. \<not> is_terminal a)
            \<and> run_loop env fm i w
                = (case run_loop env fm j v of None \<Rightarrow> None | Some (tr, u) \<Rightarrow> Some (pre @ tr, u)))"
  using assms
proof (induction env fm i w rule: passes.induct)
  case (1 env fm i w)
  show ?case
  proof (cases "(j, v) = (i, w)")
    case True
    have lt: "i < length (text_str w)"
    proof (rule ccontr)
      assume "\<not> i < length (text_str w)"
      with "1.prems" show False by (simp add: passes_stop)
    qed
    have "run_loop env fm i w
        = (case run_loop env fm i w of None \<Rightarrow> None | Some (tr, u) \<Rightarrow> Some ([] @ tr, u))"
      by (simp split: option.splits)
    with True lt show ?thesis by (intro conjI exI [of _ "[]"]) simp_all
  next
    case ne: False
    from passes_tail [OF "1.prems" ne] obtain i' acts w' where
      b: "loop_body env fm i w = Some (Next i' acts w')"
      and m: "(j, v) \<in> set (passes env fm i' w')" and lt: "i < length (text_str w)"
      by blast
    from loop_body_Next_progress [OF b lt] have gt: "i < i'" and tx: "text_str w' = text_str w"
      by simp_all
    from loop_body_Next_shape [OF b] have sc: "same_config w' w" by blast
    from "1.IH" [OF lt b refl m]
    obtain pre where ih: "same_config v w'" "i' \<le> j" "j < length (text_str w')"
      "\<forall>a \<in> set pre. \<not> is_terminal a"
      "run_loop env fm i' w'
         = (case run_loop env fm j v of None \<Rightarrow> None | Some (tr, u) \<Rightarrow> Some (pre @ tr, u))"
      by blast
    have nt: "\<forall>a \<in> set (acts @ pre). \<not> is_terminal a"
      using Next_not_terminal [OF b] ih(4) by auto
    have "run_loop env fm i w
        = (case run_loop env fm j v of None \<Rightarrow> None | Some (tr, u) \<Rightarrow> Some ((acts @ pre) @ tr, u))"
      using lt b ih(5) by (simp add: run_loop_rec split: option.splits)
    moreover have "same_config v w" using ih(1) sc by (rule same_config_trans)
    moreover have "i \<le> j" using gt ih(2) by simp
    moreover have "j < length (text_str w)" using ih(3) tx by simp
    ultimately show ?thesis using nt
      by (intro conjI exI [of _ "acts @ pre"]) simp_all
  qed
qed

lemma passes_self: "i < length (text_str w) \<Longrightarrow> (i, w) \<in> set (passes env fm i w)"
  by (simp add: passes_rec)

lemma passes_next:
  assumes "(j, v) \<in> set (passes env fm i w)"
    and "loop_body env fm j v = Some (Next j' acts v')" and "j' < length (text_str w)"
  shows "(j', v') \<in> set (passes env fm i w)"
  using assms
proof (induction env fm i w rule: passes.induct)
  case (1 env fm i w)
  show ?case
  proof (cases "(j, v) = (i, w)")
    case True
    have lt: "i < length (text_str w)"
    proof (rule ccontr)
      assume "\<not> i < length (text_str w)"
      with "1.prems" show False by (simp add: passes_stop)
    qed
    from True "1.prems"(2) have b: "loop_body env fm i w = Some (Next j' acts v')" by simp
    from loop_body_Next_progress [OF b lt] have tx: "text_str v' = text_str w" by simp
    with "1.prems"(3) have "j' < length (text_str v')" by simp
    then have "(j', v') \<in> set (passes env fm j' v')" by (rule passes_self)
    with lt b show ?thesis by (simp add: passes_rec)
  next
    case ne: False
    from passes_tail [OF "1.prems"(1) ne] obtain i' acts' w' where
      b: "loop_body env fm i w = Some (Next i' acts' w')"
      and m: "(j, v) \<in> set (passes env fm i' w')" and lt: "i < length (text_str w)"
      by blast
    from loop_body_Next_progress [OF b lt] have tx: "text_str w' = text_str w" by simp
    have "j' < length (text_str w')" using "1.prems"(3) tx by simp
    with "1.IH" [OF lt b refl m "1.prems"(2)]
    have "(j', v') \<in> set (passes env fm i' w')" by simp
    with lt b show ?thesis by (simp add: passes_rec)
  qed
qed

text \<open>Passes that reach the unit, and where an error signal comes from.\<close>

lemma pause_wait_not_waiting: "\<not> waiting v \<Longrightarrow> pause_wait v ts = Some (v, [])"
  using pause_wait_first [of 0 ts v] by simp

lemma delay_kinds:
  assumes "unit_delay env w raw = (a6, e)" "a \<in> set a6"
  shows "a \<noteq> FocusPaused \<and> a \<noteq> IdleSleep \<and> a \<noteq> Stopped \<and> \<not> is_typing a"
proof -
  from assms have "a \<in> set (fst (unit_delay env w raw))" by simp
  from unit_delay_kinds [OF this] show ?thesis by auto
qed

lemma loop_body_typing:
  assumes ns: "\<not> stop_flag (apply_calls (calls_top env i) w)"
    and pw: "pause_wait (fst (check_focus env i (apply_calls (calls_top env i) w))) (calls_idle env i)
           = Some (w3, a3)"
    and ns3: "\<not> stop_flag w3"
  shows "\<exists>st more. loop_body env fm i w = Some st
      \<and> step_actions st = snd (check_focus env i (apply_calls (calls_top env i) w)) @ a3
            @ fst (snd (emit_unit env fm i w)) @ more
      \<and> (\<forall>a \<in> set more. a \<noteq> FocusPaused \<and> a \<noteq> IdleSleep \<and> a \<noteq> Stopped \<and> \<not> is_typing a)
      \<and> (\<forall>i' acts u. st = Next i' acts u \<longrightarrow> i' = fst (emit_unit env fm i w))
      \<and> (\<forall>i' acts u. st = Next i' acts u \<or> st = Halt acts u \<longrightarrow>
            u = apply_calls (calls_emit env i) w3)
      \<and> (snd (snd (emit_unit env fm i w)) = None
           \<and> (fm \<or> snd (unit_delay env w (randint_raw env i)) = None) \<longrightarrow>
          (\<exists>acts. st = Next (fst (emit_unit env fm i w)) acts (apply_calls (calls_emit env i) w3)))"
proof -
  obtain i' a4 e4 where e: "emit_unit env fm i w = (i', a4, e4)"
    by (cases "emit_unit env fm i w") auto
  obtain a6 e6 where d: "unit_delay env w (randint_raw env i) = (a6, e6)"
    by (cases "unit_delay env w (randint_raw env i)") auto
  let ?pre = "snd (check_focus env i (apply_calls (calls_top env i) w)) @ a3"
  let ?w4 = "apply_calls (calls_emit env i) w3"
  let ?p = "ProgressChanged (percent i' (length (text_str w)))"
  note lb = loop_body_emit [OF ns pw ns3 e d refl refl refl]
  note k = delay_kinds [OF d]
  show ?thesis
  proof (cases e4)
    case (Some x)
    with lb have "loop_body env fm i w = Some (Halt (?pre @ a4 @ [Error x]) ?w4)" by simp
    with e Some show ?thesis
      by (intro exI [of _ "Halt (?pre @ a4 @ [Error x]) ?w4"] exI [of _ "[Error x]"]) simp
  next
    case None
    show ?thesis
    proof (cases fm)
      case True
      with lb None have "loop_body env fm i w = Some (Next i' (?pre @ a4 @ [?p]) ?w4)" by simp
      with e None show ?thesis
        by (intro exI [of _ "Next i' (?pre @ a4 @ [?p]) ?w4"] exI [of _ "[?p]"]) simp
    next
      case False
      show ?thesis
      proof (cases e6)
        case (Some x)
        with lb None False
        have "loop_body env fm i w = Some (Halt (?pre @ a4 @ [?p] @ a6 @ [Error x]) ?w4)" by simp
        with e d None False Some k show ?thesis
          by (intro exI [of _ "Halt (?pre @ a4 @ [?p] @ a6 @ [Error x]) ?w4"]
                exI [of _ "[?p] @ a6 @ [Error x]"]) auto
      next
        case n6: None
        with lb None False
        have "loop_body env fm i w = Some (Next i' (?pre @ a4 @ [?p] @ a6) ?w4)" by simp
        with e d None False n6 k show ?thesis
          by (intro exI [of _ "Next i' (?pre @ a4 @ [?p] @ a6) ?w4"] exI [of _ "[?p] @ a6"]) auto
      qed
    qed
  qed
qed

lemma run_error_origin:
  assumes r: "run env w = Some (tr, w')" and m: "Error e \<in> set tr"
  shows "(\<exists>j < length (text_str w). \<exists>m. e = PyautoguiError m \<and> pyautogui_raises env j = Some m)
       \<or> (e = RandintEmptyRange \<and> use_random w \<and> rand_max_ms w < rand_min_ms w)
       \<or> (e = SleepOverflow \<and> \<not> (base_delay_ms w = 0 \<and> \<not> use_random w)
           \<and> (\<exists>j < length (text_str w). \<exists>d. 0 < d \<and> sleep_overflows env d
                 \<and> DelaySleep d \<in> set (fst (unit_delay env w (randint_raw env j)))))"
proof -
  let ?fm = "base_delay_ms w = 0 \<and> \<not> use_random w"
  from run_action_cases [OF r] m obtain j where j: "j < length (text_str w)"
    and fp: "from_pass env ?fm w j (Error e)" by auto
  from fp consider "Error e \<in> set (fst (snd (emit_unit env ?fm j w)))"
    | "\<not> ?fm" "Error e \<in> set (fst (unit_delay env w (randint_raw env j)))"
    | "snd (snd (emit_unit env ?fm j w)) = Some e"
    | "\<not> ?fm" "snd (unit_delay env w (randint_raw env j)) = Some e"
    unfolding from_pass_def by auto
  then show ?thesis
  proof cases
    case 1
    from emit_unit_typing [OF this] show ?thesis by simp
  next
    case 2
    from unit_delay_kinds [OF this(2)] show ?thesis by auto
  next
    case 3
    from emit_unit_exc [OF this] j show ?thesis by blast
  next
    case 4
    from unit_delay_exc [OF this(2)] this(1) j show ?thesis by blast
  qed
qed

lemma run_loop_unpaused:
  assumes "\<forall>j. active_window env j = FgRaises \<and> calls_top env j = [] \<and> calls_query env j = []
              \<and> calls_emit env j = []"
    and "\<not> stop_flag w" "\<not> pause_flag w"
  shows "\<exists>tr. run_loop env fm i w = Some (tr, w)
           \<and> FocusPaused \<notin> set tr \<and> IdleSleep \<notin> set tr \<and> Stopped \<notin> set tr"
  using assms
proof (induction env fm i w rule: run_loop.induct)
  case (1 env fm i w)
  note q = "1.prems"(1) and ns = "1.prems"(2) and np = "1.prems"(3)
  show ?case
  proof (cases "i < length (text_str w)")
    case False
    then show ?thesis by (simp add: run_loop_end)
  next
    case lt: True
    have w1: "apply_calls (calls_top env i) w = w" using q by (simp add: apply_calls_def)
    have cf: "check_focus env i w = (w, [])"
      using q ns np by (simp add: check_focus_def apply_calls_def)
    have pw: "pause_wait (fst (check_focus env i (apply_calls (calls_top env i) w))) (calls_idle env i)
           = Some (w, [])"
      unfolding w1 cf using np by (simp add: pause_wait_not_waiting waiting_def)
    have ns1: "\<not> stop_flag (apply_calls (calls_top env i) w)" using ns w1 by simp
    have w4: "apply_calls (calls_emit env i) w = w" using q by (simp add: apply_calls_def)
    from loop_body_typing [OF ns1 pw ns, where fm = fm] obtain st more where
      b: "loop_body env fm i w = Some st"
      and acts: "step_actions st = fst (snd (emit_unit env fm i w)) @ more"
      and more: "\<forall>a \<in> set more. a \<noteq> FocusPaused \<and> a \<noteq> IdleSleep \<and> a \<noteq> Stopped \<and> \<not> is_typing a"
      and wk: "\<forall>i' acts u. st = Next i' acts u \<or> st = Halt acts u \<longrightarrow> u = w"
      unfolding w1 cf w4 by auto
    have ty: "\<forall>a \<in> set (fst (snd (emit_unit env fm i w))). is_typing a"
      using emit_unit_typing by blast
    have clean: "FocusPaused \<notin> set (step_actions st) \<and> IdleSleep \<notin> set (step_actions st)
        \<and> Stopped \<notin> set (step_actions st)"
      unfolding acts using more ty by auto
    show ?thesis
    proof (cases st)
      case (Halt acts u)
      with wk have "u = w" by simp
      with b Halt lt have "run_loop env fm i w = Some (acts, w)" by (simp add: run_loop_rec)
      with clean Halt show ?thesis by simp
    next
      case (Next i' acts u)
      with wk have u: "u = w" by simp
      from "1.IH" [OF lt b Next] q ns np obtain rest where
        r: "run_loop env fm i' w = Some (rest, w)"
        and c: "FocusPaused \<notin> set rest \<and> IdleSleep \<notin> set rest \<and> Stopped \<notin> set rest"
        unfolding u by blast
      from b Next u lt r have "run_loop env fm i w = Some (acts @ rest, w)"
        by (simp add: run_loop_rec)
      with clean c Next show ?thesis by simp
    qed
  qed
qed

text \<open>When typing a unit raises, and what a run does with an exception.\<close>

lemma emit_unit_raises:
  assumes "j < length (text_str w)"
  shows "snd (snd (emit_unit env fm j w))
     = (if text_str w ! j = 8 \<or> text_str w ! j = 27
           \<or> (keyboard_raises env j
               \<and> (text_str w ! j = 10 \<or> text_str w ! j = 9 \<or> 32 \<le> text_str w ! j))
        then map_option PyautoguiError (pyautogui_raises env j) else None)"
proof (cases "fm \<and> is_fast_char (text_str w ! j)")
  case True
  let ?c = "take 40 (takeWhile is_fast_char (drop j (text_str w)))"
  from assms have d: "drop j (text_str w) = text_str w ! j # drop (Suc j) (text_str w)"
    by (simp add: Cons_nth_drop_Suc)
  have ne: "?c \<noteq> []" using True unfolding d by simp
  have cl: "chunk_loop (text_str w) j [] = (j + length ?c, ?c)"
    using chunk_loop_eq [of "[]" "text_str w" j] by simp
  have "snd (snd (emit_unit env fm j w))
      = (if keyboard_raises env j then map_option PyautoguiError (pyautogui_raises env j) else None)"
    using True ne by (simp add: emit_unit_def Let_def cl fast_type_chunk_def safe_write_def)
  moreover from True have "32 \<le> text_str w ! j" "text_str w ! j \<noteq> 8" "text_str w ! j \<noteq> 27"
    by (auto simp: is_fast_char_def split: if_splits)
  ultimately show ?thesis by simp
next
  case False
  then have "snd (snd (emit_unit env fm j w))
      = snd (type_char (keyboard_raises env j) (map_option PyautoguiError (pyautogui_raises env j))
               (text_str w ! j))"
    by (auto simp: emit_unit_def Let_def split: prod.splits)
  then show ?thesis by (auto simp: type_char_def safe_write_def)
qed

lemma run_pass_halts:
  assumes mem: "(j, v) \<in> set (passes env (base_delay_ms w = 0 \<and> \<not> use_random w) 0 w)"
    and lb: "loop_body env (base_delay_ms w = 0 \<and> \<not> use_random w) j v = Some (Halt acts u)"
  shows "\<exists>pre. run env w = Some (pre @ acts, u) \<and> (\<forall>a \<in> set pre. \<not> is_terminal a)"
proof -
  let ?fm = "base_delay_ms w = 0 \<and> \<not> use_random w"
  from passes_run_loop [OF mem] obtain pre where
    sc: "same_config v w" and lt: "j < length (text_str w)"
    and nt: "\<forall>a \<in> set pre. \<not> is_terminal a"
    and r: "run_loop env ?fm 0 w
        = (case run_loop env ?fm j v of None \<Rightarrow> None | Some (tr, u) \<Rightarrow> Some (pre @ tr, u))"
    by blast
  from sc lt have "j < length (text_str v)" by (simp add: same_config_def)
  with lb have "run_loop env ?fm j v = Some (acts, u)" by (simp add: run_loop_rec)
  with r have "run_loop env ?fm 0 w = Some (pre @ acts, u)" by simp
  moreover from lt have "length (text_str w) \<noteq> 0" by auto
  ultimately have "run env w = Some (pre @ acts, u)" by (simp add: run_def Let_def)
  with nt show ?thesis by blast
qed

lemma run_pass_raises:
  assumes fm: "fm = (base_delay_ms w = 0 \<and> \<not> use_random w)"
    and mem: "(j, v) \<in> set (passes env fm 0 w)"
    and ns: "\<not> stop_flag (apply_calls (calls_top env j) v)"
    and pw: "pause_wait (fst (check_focus env j (apply_calls (calls_top env j) v))) (calls_idle env j)
             = Some (w3, a3)"
    and ns3: "\<not> stop_flag w3"
    and raised: "snd (snd (emit_unit env fm j w)) = Some e
             \<or> (\<not> fm \<and> snd (snd (emit_unit env fm j w)) = None
                 \<and> snd (unit_delay env w (randint_raw env j)) = Some e)"
  shows "\<exists>body. run env w = Some (body @ [Error e], apply_calls (calls_emit env j) w3)
            \<and> (\<forall>a \<in> set body. \<not> is_terminal a)"
proof -
  from passes_run_loop [OF mem] have sc: "same_config v w" by blast
  then have t: "text_str v = text_str w" by (simp add: same_config_def)
  obtain i' a4 e4 where eu: "emit_unit env fm j v = (i', a4, e4)"
    by (cases "emit_unit env fm j v") auto
  obtain a6 e6 where d: "unit_delay env v (randint_raw env j) = (a6, e6)"
    by (cases "unit_delay env v (randint_raw env j)") auto
  have e4: "snd (snd (emit_unit env fm j w)) = e4"
    using eu emit_unit_text [OF t, of env fm j] by simp
  have e6: "snd (unit_delay env w (randint_raw env j)) = e6"
    using d unit_delay_config [OF sc, of env "randint_raw env j"] by simp
  note lb = loop_body_emit [OF ns pw ns3 eu d refl refl refl]
  let ?pre = "snd (check_focus env j (apply_calls (calls_top env j) v)) @ a3"
  let ?p = "ProgressChanged (percent i' (length (text_str v)))"
  let ?w4 = "apply_calls (calls_emit env j) w3"
  from raised e4 e6 consider (emit) "e4 = Some e" | (delay) "\<not> fm" "e4 = None" "e6 = Some e"
    by auto
  then have "\<exists>acts. loop_body env fm j v = Some (Halt (acts @ [Error e]) ?w4)"
  proof cases
    case emit
    with lb have "loop_body env fm j v = Some (Halt ((?pre @ a4) @ [Error e]) ?w4)" by simp
    then show ?thesis by (rule exI)
  next
    case delay
    with lb have "loop_body env fm j v = Some (Halt ((?pre @ a4 @ [?p] @ a6) @ [Error e]) ?w4)"
      by simp
    then show ?thesis by (rule exI)
  qed
  then obtain acts where h: "loop_body env fm j v = Some (Halt (acts @ [Error e]) ?w4)" ..
  from run_pass_halts [OF mem [unfolded fm] h [unfolded fm]] obtain pre where
    r: "run env w = Some (pre @ acts @ [Error e], ?w4)" by blast
  from run_terminal [OF r] obtain body t where
    b: "pre @ acts @ [Error e] = body @ [t]" and nt: "\<forall>a \<in> set body. \<not> is_terminal a"
    by blast
  from b have "body = pre @ acts" by simp
  with nt have "\<forall>a \<in> set (pre @ acts). \<not> is_terminal a" by simp
  moreover from r have "run env w = Some ((pre @ acts) @ [Error e], ?w4)" by simp
  ultimately show ?thesis
    by (intro exI [of _ "pre @ acts"] conjI)
qed

section \<open>The typing calls of a run\<close>

lemma emit_unit_cursor: "fst (emit_unit env fm i w) = next_cursor fm (text_str w) i"
  by (simp add: emit_unit_def next_cursor_def Let_def split: prod.splits)

lemma typing_none: "\<forall>a \<in> set tr. \<not> is_typing a \<Longrightarrow> filter is_typing tr = []"
  by (induction tr) simp_all

lemma typing_all: "\<forall>a \<in> set tr. is_typing a \<Longrightarrow> filter is_typing tr = tr"
  by (induction tr) simp_all

lemma typing_pre: "set pre \<subseteq> {FocusPaused, IdleSleep} \<Longrightarrow> filter is_typing pre = []"
  by (rule typing_none) auto

lemma typing_emit: "emit_unit env fm i w = (i', a4, e) \<Longrightarrow> filter is_typing a4 = a4"
  using emit_unit_acts [of env fm i w i' a4 e] by (intro typing_all) blast

lemma typing_delay: "unit_delay env w raw = (a6, e) \<Longrightarrow> filter is_typing a6 = []"
proof (rule typing_none, rule ballI)
  fix a
  assume "unit_delay env w raw = (a6, e)" "a \<in> set a6"
  then have "a \<in> set (fst (unit_delay env w raw))" by simp
  from unit_delay_kinds [OF this] show "\<not> is_typing a" by auto
qed

lemma run_loop_typing:
  assumes "run_loop env fm i w = Some (tr, w')"
  shows "(\<exists>k. filter is_typing tr
            = concat (map (\<lambda>j. fst (snd (emit_unit env fm j w))) (take k (unit_starts fm (text_str w) i))))
       \<and> (last tr = Finished \<longrightarrow> filter is_typing tr
            = concat (map (\<lambda>j. fst (snd (emit_unit env fm j w))) (unit_starts fm (text_str w) i)))"
  using assms
proof (induction env fm i w arbitrary: tr rule: run_loop.induct)
  case (1 env fm i w)
  let ?T = "\<lambda>j. fst (snd (emit_unit env fm j w))"
  show ?case
  proof (cases "i < length (text_str w)")
    case False
    with "1.prems" have "tr = [Finished]" by (simp add: run_loop_end)
    with False show ?thesis
      by (simp add: unit_starts_stop)
  next
    case lt: True
    let ?i' = "next_cursor fm (text_str w) i"
    have u: "unit_starts fm (text_str w) i = i # unit_starts fm (text_str w) ?i'"
      using lt by (rule unit_starts_rec)
    show ?thesis
    proof (cases "loop_body env fm i w")
      case None
      with lt "1.prems" show ?thesis by (simp add: run_loop_rec)
    next
      case (Some st)
      show ?thesis
      proof (cases st)
        case (Halt acts v')
        with Some lt "1.prems" have eq: "tr = acts" by (simp add: run_loop_rec)
        have b: "loop_body env fm i w = Some (Halt acts v')" using Some Halt by simp
        from Halt_terminal [OF b] have nf: "last acts \<noteq> Finished" by auto
        from loop_body_Halt_shape [OF b] obtain pre where
          pre: "set pre \<subseteq> {FocusPaused, IdleSleep}"
          and c: "(acts = pre @ [Stopped] \<and> stop_flag v')
            \<or> (\<exists>i' a4 e. emit_unit env fm i w = (i', a4, Some e) \<and> acts = pre @ a4 @ [Error e])
            \<or> (\<exists>i' a4 a6 e. \<not> fm \<and> emit_unit env fm i w = (i', a4, None)
                 \<and> unit_delay env w (randint_raw env i) = (a6, Some e)
                 \<and> acts = pre @ a4 @ [ProgressChanged (percent i' (length (text_str w)))] @ a6 @ [Error e])"
          by blast
        from c consider
          (stopped) "acts = pre @ [Stopped]"
          | (raised) i' a4 e where "emit_unit env fm i w = (i', a4, Some e)" "acts = pre @ a4 @ [Error e]"
          | (delay) i' a4 a6 e where "emit_unit env fm i w = (i', a4, None)"
              "unit_delay env w (randint_raw env i) = (a6, Some e)"
              "acts = pre @ a4 @ [ProgressChanged (percent i' (length (text_str w)))] @ a6 @ [Error e]"
          by blast
        then have "filter is_typing acts = [] \<or> filter is_typing acts = ?T i"
        proof cases
          case stopped
          with typing_pre [OF pre] show ?thesis by simp
        next
          case raised
          with typing_pre [OF pre] typing_emit [OF raised(1)] show ?thesis
            by simp
        next
          case delay
          with typing_pre [OF pre] typing_emit [OF delay(1)] typing_delay [OF delay(2)]
          show ?thesis by simp
        qed
        then have "\<exists>k. filter is_typing acts = concat (map ?T (take k (unit_starts fm (text_str w) i)))"
        proof
          assume "filter is_typing acts = []"
          then show ?thesis by (intro exI [of _ 0]) simp
        next
          assume "filter is_typing acts = ?T i"
          then show ?thesis unfolding u by (intro exI [of _ 1]) simp
        qed
        with nf show ?thesis unfolding eq by simp
      next
        case (Next i' acts v')
        with Some lt "1.prems" obtain rest where
          r: "run_loop env fm i' v' = Some (rest, w')" and eq: "tr = acts @ rest"
          by (auto simp: run_loop_rec split: option.splits)
        have b: "loop_body env fm i w = Some (Next i' acts v')" using Some Next by simp
        from loop_body_Next_progress [OF b lt] have tx: "text_str v' = text_str w" by simp
        from loop_body_Next_shape [OF b] obtain pre a4 a6 where
          pre: "set pre \<subseteq> {FocusPaused, IdleSleep}"
          and e: "emit_unit env fm i w = (i', a4, None)"
          and acts: "acts = pre @ a4 @ [ProgressChanged (percent i' (length (text_str w)))] @ a6"
          and d: "if fm then a6 = [] else unit_delay env w (randint_raw env i) = (a6, None)"
          by blast
        have i': "i' = ?i'" using e emit_unit_cursor [of env fm i w] by simp
        have "filter is_typing a6 = []"
          using d typing_delay by (cases fm) auto
        with acts typing_pre [OF pre] typing_emit [OF e] e
        have pa: "filter is_typing acts = ?T i"
          by simp
        have T: "(\<lambda>j. fst (snd (emit_unit env fm j v'))) = ?T"
          using emit_unit_text [OF tx] by simp
        from "1.IH" [OF lt Some Next r] obtain k where
          k: "filter is_typing rest = concat (map ?T (take k (unit_starts fm (text_str w) ?i')))"
          and f: "last rest = Finished \<longrightarrow>
                filter is_typing rest = concat (map ?T (unit_starts fm (text_str w) ?i'))"
          unfolding tx i' T by blast
        from run_loop_terminal [OF r] have ne: "rest \<noteq> []" by auto
        have "filter is_typing tr = concat (map ?T (take (Suc k) (unit_starts fm (text_str w) i)))"
          unfolding eq u using pa k by simp
        moreover have "last tr = Finished \<longrightarrow>
            filter is_typing tr = concat (map ?T (unit_starts fm (text_str w) i))"
          unfolding eq u using pa f ne by simp
        ultimately show ?thesis by blast
      qed
    qed
  qed
qed

lemma run_typing:
  assumes "run env w = Some (tr, w')" and "fm = (base_delay_ms w = 0 \<and> \<not> use_random w)"
  shows "(\<exists>k. filter is_typing tr
            = concat (map (\<lambda>j. fst (snd (emit_unit env fm j w))) (take k (unit_starts fm (text_str w) 0))))
       \<and> (last tr = Finished \<longrightarrow> filter is_typing tr
            = concat (map (\<lambda>j. fst (snd (emit_unit env fm j w))) (unit_starts fm (text_str w) 0)))"
proof (cases "length (text_str w) = 0")
  case True
  with assms have "tr = [Finished]" by (simp add: run_def)
  moreover from True have "unit_starts fm (text_str w) 0 = []" by (simp add: unit_starts_stop)
  ultimately show ?thesis by simp
next
  case False
  with assms have "run_loop env fm 0 w = Some (tr, w')" by (simp add: run_def Let_def)
  then show ?thesis by (rule run_loop_typing)
qed

lemma next_cursor_fast:
  "next_cursor True tx i
     = (if is_fast_char (tx ! i) then i + length (take 40 (takeWhile is_fast_char (drop i tx)))
        else Suc i)"
  using chunk_loop_eq [of "[]" tx i] by (simp add: next_cursor_def)

lemma unit_starts_paced: "unit_starts False tx i = [i..<length tx]"
proof (induction "False" tx i rule: unit_starts.induct)
  case (1 tx i)
  show ?case
  proof (cases "i < length tx")
    case True
    have "unit_starts False tx i = i # unit_starts False tx (Suc i)"
      using True by (simp add: unit_starts_rec next_cursor_def)
    with "1.hyps" [OF True] True show ?thesis
      by (simp add: next_cursor_def upt_conv_Cons)
  next
    case False
    then show ?thesis by (simp add: unit_starts_stop)
  qed
qed

lemma unit_starts_one_batch:
  assumes "tx \<noteq> []" "length tx \<le> 40" "\<forall>c \<in> set tx. is_fast_char c"
  shows "unit_starts True tx 0 = [0]"
proof -
  have tw: "takeWhile is_fast_char tx = tx" using assms(3) by (simp add: takeWhile_eq_all_conv)
  have f: "is_fast_char (tx ! 0)" using assms(1,3) by (cases tx) auto
  have "next_cursor True tx 0 = length tx"
    using f assms(2) by (simp add: next_cursor_fast tw)
  moreover have "unit_starts True tx (length tx) = []" by (simp add: unit_starts_stop)
  moreover have "0 < length tx" using assms(1) by simp
  ultimately show ?thesis by (simp add: unit_starts_rec)
qed

section \<open>Properties\<close>

subsection \<open>Typing one character\<close>

text \<open>
  C4, as stated: newline and tab go to their key-press primitive first, and to a literal
  write only when the key press fails. The code does it the other way round: with a working
  \<^verbatim>\<open>keyboard.write\<close> the newline is one literal write and no key is pressed.
\<close>

theorem C4_newline_counterexample:
  "fst (type_char False None 10) = [KeyboardWrite [10]]
   \<and> PyautoPress KEnter \<notin> set (fst (type_char False None 10))"
  by (simp add: type_char_def)

text \<open>
  C4, amended: newline and tab are written literally with \<^verbatim>\<open>keyboard.write\<close>, and only when
  that raises the Enter or Tab key is pressed instead; code point 8 presses Backspace and
  code point 27 presses Escape; every other code point below 32 produces no call at all;
  every code point from 32 on, whatever its script, is written literally
  (\<^verbatim>\<open>keyboard.write\<close>, then \<^verbatim>\<open>pyautogui.write\<close> when that raises).
\<close>

theorem C4_type_char:
  "(ch = 10 \<longrightarrow> type_char False pg ch = ([KeyboardWrite [10]], None)
              \<and> type_char True pg ch = ([KeyboardWrite [10], PyautoPress KEnter], pg))
   \<and> (ch = 9 \<longrightarrow> type_char False pg ch = ([KeyboardWrite [9]], None)
              \<and> type_char True pg ch = ([KeyboardWrite [9], PyautoPress KTab], pg))
   \<and> (ch = 8 \<longrightarrow> type_char kb pg ch = ([PyautoPress KBackspace], pg))
   \<and> (ch = 27 \<longrightarrow> type_char kb pg ch = ([PyautoPress KEsc], pg))
   \<and> (ch < 32 \<and> ch \<notin> {8, 9, 10, 27} \<longrightarrow> type_char kb pg ch = ([], None))
   \<and> (32 \<le> ch \<longrightarrow> type_char False pg ch = ([KeyboardWrite [ch]], None)
              \<and> type_char True pg ch = ([KeyboardWrite [ch], PyautoWrite [ch]], pg))"
  by (simp add: type_char_def safe_write_def)

theorem C4_type_char_witness:
  "type_char False None 10 = ([KeyboardWrite [10]], None)
   \<and> type_char True None 9 = ([KeyboardWrite [9], PyautoPress KTab], None)
   \<and> type_char False None 8 = ([PyautoPress KBackspace], None)
   \<and> type_char False None 27 = ([PyautoPress KEsc], None)
   \<and> type_char False None 7 = ([], None)
   \<and> type_char False None 128512 = ([KeyboardWrite [128512]], None)"
  using C4_type_char [where ch = 10 and pg = None and kb = False]
    C4_type_char [where ch = 9 and pg = None and kb = False]
    C4_type_char [where ch = 8 and pg = None and kb = False]
    C4_type_char [where ch = 27 and pg = None and kb = False]
    C4_type_char [where ch = 7 and pg = None and kb = False]
    C4_type_char [where ch = 128512 and pg = None and kb = False]
  by simp

subsection \<open>Jitter bounds\<close>

text \<open>
  C3: the constructor orders the jitter bounds, so that \<open>rand_min_ms \<le> rand_max_ms\<close>; when
  they come in as \<open>a > b\<close> they are swapped. No method call changes them, and \<^verbatim>\<open>run\<close> ends
  with the same bounds. Every jitter value drawn during a run is drawn from
  \<open>[min a b, max a b]\<close> and lies in it, the draw never fails on an empty range, and both
  end points can be drawn.
\<close>

theorem C3_jitter_bounds:
  "rand_min_ms (TypingWorker_init tx base rnd a b title) = min a b
   \<and> rand_max_ms (TypingWorker_init tx base rnd a b title) = max a b
   \<and> (b < a \<longrightarrow> rand_min_ms (TypingWorker_init tx base rnd a b title) = b
               \<and> rand_max_ms (TypingWorker_init tx base rnd a b title) = a)
   \<and> (\<forall>cs. rand_min_ms (apply_calls cs (TypingWorker_init tx base rnd a b title)) = min a b
           \<and> rand_max_ms (apply_calls cs (TypingWorker_init tx base rnd a b title)) = max a b)
   \<and> (\<forall>env tr w'. run env (TypingWorker_init tx base rnd a b title) = Some (tr, w') \<longrightarrow>
          rand_min_ms w' = min a b \<and> rand_max_ms w' = max a b
          \<and> Error RandintEmptyRange \<notin> set tr
          \<and> (\<forall>lo hi j. RandInt lo hi j \<in> set tr \<longrightarrow>
                 lo = min a b \<and> hi = max a b \<and> min a b \<le> j \<and> j \<le> max a b))
   \<and> (\<forall>raw. \<exists>j. randint (min a b) (max a b) raw = Inr j \<and> min a b \<le> j \<and> j \<le> max a b)
   \<and> randint (min a b) (max a b) 0 = Inr (min a b)
   \<and> randint (min a b) (max a b) (nat (max a b - min a b)) = Inr (max a b)"
proof -
  let ?w = "TypingWorker_init tx base rnd a b title"
  have mn: "rand_min_ms ?w = min a b" and mx: "rand_max_ms ?w = max a b"
    using init_bounds [of tx base rnd a b title] by simp_all
  have le: "rand_min_ms ?w \<le> rand_max_ms ?w" by (simp add: mn mx)
  have swap: "b < a \<longrightarrow> rand_min_ms ?w = b \<and> rand_max_ms ?w = a"
    by (simp add: mn mx min_def max_def)
  have life: "\<forall>cs. rand_min_ms (apply_calls cs ?w) = min a b
           \<and> rand_max_ms (apply_calls cs ?w) = max a b"
  proof
    fix cs
    show "rand_min_ms (apply_calls cs ?w) = min a b \<and> rand_max_ms (apply_calls cs ?w) = max a b"
      using same_config_apply_calls [of cs ?w] by (simp add: same_config_def mn mx)
  qed
  have runs: "\<forall>env tr w'. run env ?w = Some (tr, w') \<longrightarrow>
          rand_min_ms w' = min a b \<and> rand_max_ms w' = max a b
          \<and> Error RandintEmptyRange \<notin> set tr
          \<and> (\<forall>lo hi j. RandInt lo hi j \<in> set tr \<longrightarrow>
                 lo = min a b \<and> hi = max a b \<and> min a b \<le> j \<and> j \<le> max a b)"
  proof (intro allI impI)
    fix env tr w'
    assume r: "run env ?w = Some (tr, w')"
    let ?fm = "base_delay_ms ?w = 0 \<and> \<not> use_random ?w"
    from run_action_cases [OF r] have
      cases: "\<And>x. x \<in> set tr \<Longrightarrow> x = Finished \<or> x = FocusPaused \<or> x = IdleSleep \<or> x = Stopped
            \<or> (\<exists>j < length (text_str ?w). from_pass env ?fm ?w j x)"
      and sc: "same_config w' ?w"
      by blast+
    have fin: "rand_min_ms w' = min a b \<and> rand_max_ms w' = max a b"
      using sc by (simp add: same_config_def mn mx)
    have noerr: "Error RandintEmptyRange \<notin> set tr"
    proof
      assume "Error RandintEmptyRange \<in> set tr"
      from cases [OF this] obtain j where "from_pass env ?fm ?w j (Error RandintEmptyRange)"
        by auto
      then consider "Error RandintEmptyRange \<in> set (fst (snd (emit_unit env ?fm j ?w)))"
        | "Error RandintEmptyRange \<in> set (fst (unit_delay env ?w (randint_raw env j)))"
        | "snd (snd (emit_unit env ?fm j ?w)) = Some RandintEmptyRange"
        | "snd (unit_delay env ?w (randint_raw env j)) = Some RandintEmptyRange"
        unfolding from_pass_def by auto
      then show False
      proof cases
        case 1
        from emit_unit_typing [OF this] show False by simp
      next
        case 2
        then show False
          by (auto simp: unit_delay_def Let_def sleep_ms_def split: if_splits sum.splits)
      next
        case 3
        from emit_unit_exc [OF this] show False by auto
      next
        case 4
        with unit_delay_ok [OF le, of env "randint_raw env j"] show False by simp
      qed
    qed
    have draws: "\<forall>lo hi j. RandInt lo hi j \<in> set tr \<longrightarrow>
                 lo = min a b \<and> hi = max a b \<and> min a b \<le> j \<and> j \<le> max a b"
    proof (intro allI impI)
      fix lo hi j
      assume "RandInt lo hi j \<in> set tr"
      from cases [OF this] obtain k where "from_pass env ?fm ?w k (RandInt lo hi j)"
        by auto
      then consider "RandInt lo hi j \<in> set (fst (snd (emit_unit env ?fm k ?w)))"
        | "RandInt lo hi j \<in> set (fst (unit_delay env ?w (randint_raw env k)))"
        unfolding from_pass_def by auto
      then show "lo = min a b \<and> hi = max a b \<and> min a b \<le> j \<and> j \<le> max a b"
      proof cases
        case 1
        from emit_unit_typing [OF this] show ?thesis by simp
      next
        case 2
        from unit_delay_RandInt [OF this] show ?thesis by (simp add: mn mx)
      qed
    qed
    from fin noerr draws show "rand_min_ms w' = min a b \<and> rand_max_ms w' = max a b
          \<and> Error RandintEmptyRange \<notin> set tr
          \<and> (\<forall>lo hi j. RandInt lo hi j \<in> set tr \<longrightarrow>
                 lo = min a b \<and> hi = max a b \<and> min a b \<le> j \<and> j \<le> max a b)"
      by blast
  qed
  have rng: "\<forall>raw. \<exists>j. randint (min a b) (max a b) raw = Inr j \<and> min a b \<le> j \<and> j \<le> max a b"
    using randint_range [of "min a b" "max a b"] by simp
  have lo: "randint (min a b) (max a b) 0 = Inr (min a b)"
    by (simp add: randint_def)
  have hi: "randint (min a b) (max a b) (nat (max a b - min a b)) = Inr (max a b)"
    by (simp add: randint_def)
  from mn mx swap life runs rng lo hi show ?thesis by blast
qed

theorem C3_jitter_bounds_witness:
  "run (quiet_env (Some (py ''Notepad'')))
       (TypingWorker_init (py ''a'') 3 True 10 5 (Some (py ''Notepad'')))
     = Some ([KeyboardWrite (py ''a''), ProgressChanged 100, RandInt 5 10 5, DelaySleep 8, Finished],
             TypingWorker_init (py ''a'') 3 True 10 5 (Some (py ''Notepad'')))
   \<and> rand_min_ms (TypingWorker_init (py ''a'') 3 True 10 5 (Some (py ''Notepad''))) = 5
   \<and> rand_max_ms (TypingWorker_init (py ''a'') 3 True 10 5 (Some (py ''Notepad''))) = 10
   \<and> randint 5 10 5 = Inr 10"
proof -
  have r: "run (quiet_env (Some (py ''Notepad'')))
       (TypingWorker_init (py ''a'') 3 True 10 5 (Some (py ''Notepad'')))
     = Some ([KeyboardWrite (py ''a''), ProgressChanged 100, RandInt 5 10 5, DelaySleep 8, Finished],
             TypingWorker_init (py ''a'') 3 True 10 5 (Some (py ''Notepad'')))"
    by (simp add: eval_simps)
  from C3_jitter_bounds [of "py ''a''" 3 True 10 5 "Some (py ''Notepad'')"] r
  show ?thesis by simp
qed

subsection \<open>The hotkey check\<close>

text \<open>
  C8: the source says of the last token that it must be a single character or \<open>F1\<close> to
  \<open>F24\<close>. The check accepts \<open>f\<close> followed by any digits: the committed sequence
  \<open>Ctrl+F25\<close> replaces the binding by \<open>ctrl+f25\<close> and registers it. The other rules hold at
  the inputs of the specification: \<open>Shift\<close> alone leaves the binding as it is, \<open>Ctrl+K\<close>
  becomes \<open>ctrl+k\<close>, and \<open>Ctrl+F24\<close> is accepted.
\<close>

theorem C8_F25_accepted:
  "hotkey_str (on_hotkey_committed U add_hotkey (py ''Ctrl+F25'') True m) = py ''ctrl+f25''
   \<and> hotkey_str (MainWindow_init (\<lambda>_. Some 0) title) = py ''ctrl+shift+t''
   \<and> on_hotkey_committed U (\<lambda>_. Some 1) (py ''Ctrl+F25'') True (MainWindow_init (\<lambda>_. Some 0) title)
       = (MainWindow_init (\<lambda>_. Some 0) title)\<lparr>hotkey_str := py ''ctrl+f25'', hotkey_handle := Some 1\<rparr>
   \<and> on_hotkey_committed U add_hotkey (py ''Shift'') False m = set_hotkey_display (hotkey_occupied m) m
   \<and> hotkey_str (on_hotkey_committed U add_hotkey (py ''Shift'') True m) = hotkey_str m
   \<and> hotkey_str (on_hotkey_committed U add_hotkey (py ''Ctrl+K'') True m) = py ''ctrl+k''
   \<and> hotkey_str (on_hotkey_committed U add_hotkey (py ''Ctrl+F24'') True m) = py ''ctrl+f24''"
  by (auto simp: hotkey_simps split: option.splits)

subsection \<open>Resuming\<close>

text \<open>
  C7: in state Paused with a worker, a resume attempt for which the foreground query raises,
  returns no title, or returns the window's own title leaves the window in state Paused with
  the same worker object (no method of the worker is called); it only sets an error status
  and stops the resume timer. With any other title the worker is retargeted and resumed and
  the state becomes Typing; and the state becomes Typing in no other case.
\<close>

theorem C7_resume_refused:
  assumes "state m = STATE_PAUSED" and "typing_worker m = Some wk"
  shows "(query = FgRaises \<or> (\<exists>t. query = FgReturns t \<and> \<not> truthy t)
            \<or> query = FgReturns (Some (window_title m)) \<longrightarrow>
           state (resume_typing query from_hotkey m) = STATE_PAUSED
           \<and> typing_worker (resume_typing query from_hotkey m) = typing_worker m
           \<and> status_is_error (resume_typing query from_hotkey m)
           \<and> status_label (resume_typing query from_hotkey m) \<in> {StResumeNoWindow, StResumeSelf}
           \<and> \<not> resume_timer_active (resume_typing query from_hotkey m)
           \<and> resume_typing query from_hotkey m
               = m\<lparr>status_label := status_label (resume_typing query from_hotkey m),
                    status_is_error := True, resume_timer_active := False\<rparr>)
       \<and> (\<forall>t. query = FgReturns (Some t) \<and> t \<noteq> [] \<and> t \<noteq> window_title m \<longrightarrow>
           state (resume_typing query from_hotkey m) = STATE_TYPING
           \<and> typing_worker (resume_typing query from_hotkey m)
               = Some (resume (set_target_window (Some t) wk))
           \<and> \<not> status_is_error (resume_typing query from_hotkey m))
       \<and> (state (resume_typing query from_hotkey m) = STATE_TYPING \<longrightarrow>
           (\<exists>t. query = FgReturns (Some t) \<and> t \<noteq> [] \<and> t \<noteq> window_title m))"
proof (cases query)
  case FgRaises
  with assms show ?thesis
    by (simp add: resume_typing_def update_status_def truthy_def Let_def)
next
  case (FgReturns t)
  show ?thesis
  proof (cases t)
    case None
    with FgReturns assms show ?thesis
      by (simp add: resume_typing_def update_status_def truthy_def Let_def)
  next
    case (Some s)
    with FgReturns assms show ?thesis
      by (auto simp: resume_typing_def update_status_def truthy_def Let_def)
  qed
qed

theorem C7_resume_refused_witness:
  "state (paused_window (py ''ab'')) = STATE_PAUSED
   \<and> typing_worker (paused_window (py ''ab'')) = Some (pause (notepad_worker (py ''ab'')))
   \<and> resume_typing FgRaises False (paused_window (py ''ab''))
       = (paused_window (py ''ab''))\<lparr>status_label := StResumeNoWindow, status_is_error := True\<rparr>
   \<and> resume_typing (FgReturns (Some (py ''DelayInput''))) True (paused_window (py ''ab''))
       = (paused_window (py ''ab''))\<lparr>status_label := StResumeSelf, status_is_error := True\<rparr>
   \<and> state (resume_typing (FgReturns (Some (py ''Chrome''))) False (paused_window (py ''ab'')))
       = STATE_TYPING
   \<and> typing_worker (resume_typing (FgReturns (Some (py ''Chrome''))) False (paused_window (py ''ab'')))
       = Some (resume (set_target_window (Some (py ''Chrome'')) (pause (notepad_worker (py ''ab'')))))"
proof -
  let ?m = "paused_window (py ''ab'')"
  have s: "state ?m = STATE_PAUSED"
    and w: "typing_worker ?m = Some (pause (notepad_worker (py ''ab'')))"
    and t: "window_title ?m = py ''DelayInput''" and r: "\<not> resume_timer_active ?m"
    by (simp_all add: paused_window_def typing_window_def MainWindow_init_def set_idle_def
        update_status_def reset_timers_def register_hotkey_def set_hotkey_display_def Let_def)
  have ne: "py ''Chrome'' \<noteq> []" "py ''Chrome'' \<noteq> window_title ?m" "py ''DelayInput'' \<noteq> []"
    by (simp_all add: t) (simp_all add: py_def)
  have e1: "resume_typing FgRaises False ?m
       = ?m\<lparr>status_label := StResumeNoWindow, status_is_error := True\<rparr>"
    using s w r by (simp add: resume_typing_def update_status_def truthy_def Let_def)
  have e2: "resume_typing (FgReturns (Some (py ''DelayInput''))) True ?m
       = ?m\<lparr>status_label := StResumeSelf, status_is_error := True\<rparr>"
    using s w r t ne by (simp add: resume_typing_def update_status_def truthy_def Let_def)
  from C7_resume_refused [OF s w, of "FgReturns (Some (py ''Chrome''))" False] ne
  have "state (resume_typing (FgReturns (Some (py ''Chrome''))) False ?m) = STATE_TYPING
    \<and> typing_worker (resume_typing (FgReturns (Some (py ''Chrome''))) False ?m)
       = Some (resume (set_target_window (Some (py ''Chrome'')) (pause (notepad_worker (py ''ab'')))))"
    by blast
  with s w e1 e2 show ?thesis by simp
qed

subsection \<open>Cancelling\<close>

text \<open>
  C5, as stated: cancelling during Typing never yields \<^verbatim>\<open>finished\<close>. The worker reads the stop
  flag only at the top of a pass and around the pause loop. When \<^verbatim>\<open>stop()\<close> is called after
  the last check of the last unit, while that unit is typed or its delay is slept, the loop
  ends and the worker emits \<^verbatim>\<open>finished\<close>; the window, which showed the aborted status after
  the cancel, then shows the finished status and a full progress bar.
\<close>

theorem C5_late_cancel_counterexample:
  "run late_stop_env (notepad_worker (py ''ab''))
     = Some ([KeyboardWrite (py ''ab''), ProgressChanged 100, Finished],
             stop (notepad_worker (py ''ab'')))
   \<and> state (typing_window (py ''ab'')) = STATE_TYPING
   \<and> typing_worker (cancel_typing (typing_window (py ''ab''))) = Some (stop (notepad_worker (py ''ab'')))
   \<and> status_label (cancel_typing (typing_window (py ''ab''))) = StAborted
   \<and> status_label (on_typing_finished (cancel_typing (typing_window (py ''ab'')))) = StFinished
   \<and> progress_bar (on_typing_finished (cancel_typing (typing_window (py ''ab'')))) = 100"
proof -
  have "run late_stop_env (notepad_worker (py ''ab''))
     = Some ([KeyboardWrite (py ''ab''), ProgressChanged 100, Finished],
             stop (notepad_worker (py ''ab'')))"
    by (simp add: late_stop_env_def notepad_worker_def eval_simps)
  moreover have "state (typing_window (py ''ab'')) = STATE_TYPING
   \<and> typing_worker (cancel_typing (typing_window (py ''ab''))) = Some (stop (notepad_worker (py ''ab'')))
   \<and> status_label (cancel_typing (typing_window (py ''ab''))) = StAborted
   \<and> status_label (on_typing_finished (cancel_typing (typing_window (py ''ab'')))) = StFinished
   \<and> progress_bar (on_typing_finished (cancel_typing (typing_window (py ''ab'')))) = 100"
    by (simp add: typing_window_def cancel_typing_def on_typing_finished_def MainWindow_init_def
        set_idle_def update_status_def reset_timers_def register_hotkey_def set_hotkey_display_def
        Let_def)
  ultimately show ?thesis by simp
qed

text \<open>
  C5, amended: cancelling during Countdown stops the timers and returns to Idle with the
  cancelled status, without touching a worker; cancelling during Typing or Paused calls
  \<^verbatim>\<open>stop()\<close> on the worker and returns to Idle with the aborted status. A worker whose stop flag
  is set when a pass begins emits \<^verbatim>\<open>stopped\<close> at once; one that finds it set after the focus
  check and the pause loop emits \<^verbatim>\<open>stopped\<close> after at most the focus notification and idle
  sleeps, typing nothing. A run that emits \<^verbatim>\<open>stopped\<close> ends with it and never emits
  \<^verbatim>\<open>finished\<close>.
\<close>

theorem C5_cancel_observed:
  "(state m = STATE_COUNTDOWN \<longrightarrow>
       state (cancel_typing m) = STATE_IDLE \<and> status_label (cancel_typing m) = StCancelled
       \<and> \<not> countdown_timer_active (cancel_typing m) \<and> \<not> resume_timer_active (cancel_typing m)
       \<and> typing_worker (cancel_typing m) = typing_worker m)
   \<and> (state m = STATE_TYPING \<or> state m = STATE_PAUSED \<longrightarrow>
       state (cancel_typing m) = STATE_IDLE \<and> status_label (cancel_typing m) = StAborted
       \<and> \<not> countdown_timer_active (cancel_typing m) \<and> \<not> resume_timer_active (cancel_typing m)
       \<and> typing_worker (cancel_typing m) = map_option stop (typing_worker m))
   \<and> stop_flag (stop w)
   \<and> (i < length (text_str w) \<and> stop_flag w \<longrightarrow>
       run_loop env fm i w = Some ([Stopped], apply_calls (calls_top env i) w))
   \<and> (\<forall>w3 a3. i < length (text_str w)
         \<and> pause_wait (fst (check_focus env i (apply_calls (calls_top env i) w))) (calls_idle env i)
             = Some (w3, a3)
         \<and> stop_flag w3 \<longrightarrow>
       (\<exists>pre. set pre \<subseteq> {FocusPaused, IdleSleep} \<and> run_loop env fm i w = Some (pre @ [Stopped], w3)))
   \<and> (\<forall>tr w'. run env w = Some (tr, w') \<and> Stopped \<in> set tr \<longrightarrow>
       last tr = Stopped \<and> Finished \<notin> set tr)"
proof (intro conjI allI impI)
  assume "state m = STATE_COUNTDOWN"
  then show "state (cancel_typing m) = STATE_IDLE" "status_label (cancel_typing m) = StCancelled"
    "\<not> countdown_timer_active (cancel_typing m)" "\<not> resume_timer_active (cancel_typing m)"
    "typing_worker (cancel_typing m) = typing_worker m"
    by (simp_all add: cancel_typing_def set_idle_def update_status_def reset_timers_def Let_def)
next
  assume "state m = STATE_TYPING \<or> state m = STATE_PAUSED"
  then show "state (cancel_typing m) = STATE_IDLE" "status_label (cancel_typing m) = StAborted"
    "\<not> countdown_timer_active (cancel_typing m)" "\<not> resume_timer_active (cancel_typing m)"
    "typing_worker (cancel_typing m) = map_option stop (typing_worker m)"
    by (auto simp: cancel_typing_def set_idle_def update_status_def reset_timers_def Let_def)
next
  show "stop_flag (stop w)" by (simp add: stop_def)
next
  assume a: "i < length (text_str w) \<and> stop_flag w"
  then have "stop_flag (apply_calls (calls_top env i) w)" by (simp add: stop_flag_apply_calls)
  then have "loop_body env fm i w = Some (Halt [Stopped] (apply_calls (calls_top env i) w))"
    by (simp add: loop_body_def Let_def)
  with a show "run_loop env fm i w = Some ([Stopped], apply_calls (calls_top env i) w)"
    by (simp add: run_loop_rec)
next
  fix w3 a3
  assume a: "i < length (text_str w)
         \<and> pause_wait (fst (check_focus env i (apply_calls (calls_top env i) w))) (calls_idle env i)
             = Some (w3, a3)
         \<and> stop_flag w3"
  then have pw: "pause_wait (fst (check_focus env i (apply_calls (calls_top env i) w))) (calls_idle env i)
             = Some (w3, a3)" and st: "stop_flag w3" and lt: "i < length (text_str w)"
    by simp_all
  from loop_body_stop_seen [OF pw st, of fm] obtain pre where
    "set pre \<subseteq> {FocusPaused, IdleSleep}" "loop_body env fm i w = Some (Halt (pre @ [Stopped]) w3)"
    by blast
  with lt show "\<exists>pre. set pre \<subseteq> {FocusPaused, IdleSleep} \<and> run_loop env fm i w = Some (pre @ [Stopped], w3)"
    by (intro exI [of _ pre]) (simp add: run_loop_rec)
next
  fix tr w'
  assume a: "run env w = Some (tr, w') \<and> Stopped \<in> set tr"
  then have r: "run env w = Some (tr, w')" and m: "Stopped \<in> set tr" by simp_all
  from run_terminal [OF r] obtain body t where
    tr: "tr = body @ [t]" and nb: "\<forall>a \<in> set body. \<not> is_terminal a" by blast
  from terminal_unique [OF tr nb m] have t: "last tr = Stopped" "t = Stopped" by simp_all
  show "last tr = Stopped" by (rule t(1))
  show "Finished \<notin> set tr"
  proof
    assume "Finished \<in> set tr"
    from terminal_unique [OF tr nb this] t show False by simp
  qed
qed

theorem C5_cancel_observed_witness:
  "run stop_while_paused_env (notepad_worker (py ''ab''))
     = Some ([FocusPaused, IdleSleep, Stopped],
             (notepad_worker (py ''ab''))\<lparr>stop_flag := True, pause_flag := True\<rparr>)
   \<and> last [FocusPaused, IdleSleep, Stopped] = Stopped
   \<and> Finished \<notin> set [FocusPaused, IdleSleep, Stopped]
   \<and> run_loop late_stop_env True 0 (stop (notepad_worker (py ''ab'')))
       = Some ([Stopped], stop (notepad_worker (py ''ab'')))
   \<and> state (cancel_typing ((typing_window (py ''ab''))\<lparr>state := STATE_COUNTDOWN\<rparr>)) = STATE_IDLE
   \<and> typing_worker (cancel_typing (typing_window (py ''ab'')))
       = Some (stop (notepad_worker (py ''ab'')))"
proof -
  let ?w = "notepad_worker (py ''ab'')"
  have r: "run stop_while_paused_env ?w
     = Some ([FocusPaused, IdleSleep, Stopped], ?w\<lparr>stop_flag := True, pause_flag := True\<rparr>)"
    by (simp add: stop_while_paused_env_def notepad_worker_def eval_simps)
  from C5_cancel_observed [of _ ?w 0 stop_while_paused_env True] r
  have a: "last [FocusPaused, IdleSleep, Stopped] = Stopped
     \<and> Finished \<notin> set [FocusPaused, IdleSleep, Stopped]"
    by simp
  have lt: "0 < length (text_str (stop ?w)) \<and> stop_flag (stop ?w)"
    by (simp add: notepad_worker_def TypingWorker_init_def stop_def py_def Let_def)
  have top: "apply_calls (calls_top late_stop_env 0) (stop ?w) = stop ?w"
    by (simp add: late_stop_env_def quiet_env_def apply_calls_def)
  from C5_cancel_observed [of _ "stop ?w" 0 late_stop_env True] lt top
  have b: "run_loop late_stop_env True 0 (stop ?w) = Some ([Stopped], stop ?w)"
    by simp
  have c: "state ((typing_window (py ''ab''))\<lparr>state := STATE_COUNTDOWN\<rparr>) = STATE_COUNTDOWN"
    "state (typing_window (py ''ab'')) = STATE_TYPING"
    "typing_worker (typing_window (py ''ab'')) = Some ?w"
    by (simp_all add: typing_window_def)
  from C5_cancel_observed [of "(typing_window (py ''ab''))\<lparr>state := STATE_COUNTDOWN\<rparr>" ?w 0 late_stop_env True]
    C5_cancel_observed [of "typing_window (py ''ab'')" ?w 0 late_stop_env True] c
  have d: "state (cancel_typing ((typing_window (py ''ab''))\<lparr>state := STATE_COUNTDOWN\<rparr>)) = STATE_IDLE
    \<and> typing_worker (cancel_typing (typing_window (py ''ab''))) = Some (stop ?w)"
    by simp
  from r a b d show ?thesis by simp
qed

subsection \<open>The focus check\<close>

text \<open>
  C9, as stated: a failing foreground query is treated like a query that returns no title
  and pauses the worker. The handler of the exception in \<^verbatim>\<open>_check_focus\<close> returns at once:
  with a raising query the worker is left as it is and nothing is emitted, the run types the
  text and finishes, while a query returning \<^verbatim>\<open>None\<close> pauses and emits the notification.
\<close>

theorem C9_query_failure_counterexample:
  "check_focus ((quiet_env None)\<lparr>active_window := \<lambda>_. FgRaises\<rparr>) 0
       (TypingWorker_init (py ''ab'') 0 False 5 10 (Some (py ''Notepad'')))
     = (TypingWorker_init (py ''ab'') 0 False 5 10 (Some (py ''Notepad'')), [])
   \<and> check_focus (quiet_env None) 0
       (TypingWorker_init (py ''ab'') 0 False 5 10 (Some (py ''Notepad'')))
     = ((TypingWorker_init (py ''ab'') 0 False 5 10 (Some (py ''Notepad'')))\<lparr>pause_flag := True\<rparr>,
        [FocusPaused])
   \<and> map_option fst (run ((quiet_env None)\<lparr>active_window := \<lambda>_. FgRaises\<rparr>)
       (TypingWorker_init (py ''ab'') 0 False 5 10 (Some (py ''Notepad''))))
     = Some [KeyboardWrite (py ''ab''), ProgressChanged 100, Finished]"
  by (simp add: eval_simps)

text \<open>
  C9, amended. In the focus check of a worker that has a target and is neither stopped nor
  paused:
  \<^item> a foreground query that raises is ignored: the pause flag is not set and nothing is
    emitted (with no call of the control thread in between the worker is unchanged);
  \<^item> a query that returns a title pauses the worker and emits the focus-lost notification
    when the title is \<^verbatim>\<open>None\<close>, empty or different from the target, and does neither when
    the title is the target.

  The check emits the notification in these cases only, and it emits nothing else. After a
  query that raised, the pass goes on: unless the control thread pauses or stops the worker
  meanwhile, the pass types the unit at its cursor at once, with no notification, no idle
  sleep and no stop signal. When every query of a run raises and the control thread is
  silent, the run returns without any of the three, and it finishes when no primitive
  raises.
\<close>

theorem C9_query_failure_ignored:
  "(\<not> stop_flag w \<and> \<not> pause_flag w \<and> truthy (target_window_title w) \<longrightarrow>
      (active_window env i = FgRaises \<longrightarrow>
         check_focus env i w = (apply_calls (calls_query env i) w, [])
         \<and> (calls_query env i = [] \<longrightarrow> check_focus env i w = (w, [])))
      \<and> (\<forall>t. active_window env i = FgReturns t \<longrightarrow>
            check_focus env i w =
              (if \<not> truthy t \<or> t \<noteq> target_window_title (apply_calls (calls_query env i) w)
               then ((apply_calls (calls_query env i) w)\<lparr>pause_flag := True\<rparr>, [FocusPaused])
               else (apply_calls (calls_query env i) w, []))))
   \<and> (snd (check_focus env i w) = [FocusPaused] \<longleftrightarrow>
         \<not> stop_flag w \<and> \<not> pause_flag w \<and> truthy (target_window_title w)
         \<and> (\<exists>t. active_window env i = FgReturns t
               \<and> (\<not> truthy t \<or> t \<noteq> target_window_title (apply_calls (calls_query env i) w))))
   \<and> (snd (check_focus env i w) \<noteq> [FocusPaused] \<longrightarrow>
         snd (check_focus env i w) = []
         \<and> (fst (check_focus env i w) = w
             \<or> fst (check_focus env i w) = apply_calls (calls_query env i) w))
   \<and> (\<forall>fm v. w = apply_calls (calls_top env i) v \<and> \<not> stop_flag w \<and> \<not> pause_flag w
         \<and> active_window env i = FgRaises
         \<and> \<not> pause_flag (apply_calls (calls_query env i) w)
         \<and> \<not> stop_flag (apply_calls (calls_query env i) w) \<longrightarrow>
         (\<exists>st more. loop_body env fm i v = Some st
            \<and> step_actions st = fst (snd (emit_unit env fm i v)) @ more
            \<and> FocusPaused \<notin> set (step_actions st) \<and> IdleSleep \<notin> set (step_actions st)
            \<and> Stopped \<notin> set (step_actions st)))
   \<and> ((\<forall>j. active_window env j = FgRaises \<and> calls_top env j = [] \<and> calls_query env j = []
            \<and> calls_emit env j = [])
        \<and> \<not> stop_flag w \<and> \<not> pause_flag w \<longrightarrow>
         (\<exists>tr. run env w = Some (tr, w)
            \<and> FocusPaused \<notin> set tr \<and> IdleSleep \<notin> set tr \<and> Stopped \<notin> set tr
            \<and> ((\<forall>j. pyautogui_raises env j = None) \<and> (\<forall>d. \<not> sleep_overflows env d)
                 \<and> rand_min_ms w \<le> rand_max_ms w \<longrightarrow> last tr = Finished)))"
proof -
  let ?w' = "apply_calls (calls_query env i) w"
  have a: "\<not> stop_flag w \<and> \<not> pause_flag w \<and> truthy (target_window_title w) \<longrightarrow>
      (active_window env i = FgRaises \<longrightarrow>
         check_focus env i w = (?w', [])
         \<and> (calls_query env i = [] \<longrightarrow> check_focus env i w = (w, [])))
      \<and> (\<forall>t. active_window env i = FgReturns t \<longrightarrow>
            check_focus env i w =
              (if \<not> truthy t \<or> t \<noteq> target_window_title ?w'
               then (?w'\<lparr>pause_flag := True\<rparr>, [FocusPaused])
               else (?w', [])))"
    by (simp add: check_focus_def apply_calls_def Let_def)
  have b: "snd (check_focus env i w) = [FocusPaused] \<longleftrightarrow>
         \<not> stop_flag w \<and> \<not> pause_flag w \<and> truthy (target_window_title w)
         \<and> (\<exists>t. active_window env i = FgReturns t
               \<and> (\<not> truthy t \<or> t \<noteq> target_window_title ?w'))"
    by (cases "active_window env i") (auto simp: check_focus_def Let_def)
  have c: "snd (check_focus env i w) \<noteq> [FocusPaused] \<longrightarrow>
         snd (check_focus env i w) = []
         \<and> (fst (check_focus env i w) = w \<or> fst (check_focus env i w) = ?w')"
    by (cases "active_window env i") (auto simp: check_focus_def Let_def)
  have d: "\<exists>st more. loop_body env fm i v = Some st
            \<and> step_actions st = fst (snd (emit_unit env fm i v)) @ more
            \<and> FocusPaused \<notin> set (step_actions st) \<and> IdleSleep \<notin> set (step_actions st)
            \<and> Stopped \<notin> set (step_actions st)"
    if h: "w = apply_calls (calls_top env i) v \<and> \<not> stop_flag w \<and> \<not> pause_flag w
         \<and> active_window env i = FgRaises \<and> \<not> pause_flag ?w' \<and> \<not> stop_flag ?w'" for fm v
  proof -
    from h have w: "apply_calls (calls_top env i) v = w" by blast
    from h have f: "\<not> stop_flag w" "\<not> pause_flag w" "active_window env i = FgRaises" by blast+
    define w2 where "w2 = (if truthy (target_window_title w) then ?w' else w)"
    have cf: "check_focus env i w = (w2, [])"
      using f by (simp add: check_focus_def w2_def)
    have w2: "w2 = w \<or> w2 = ?w'" by (simp add: w2_def)
    from h have g: "\<not> pause_flag ?w'" "\<not> stop_flag ?w'" by blast+
    from w2 f g have nw: "\<not> waiting w2" and ns2: "\<not> stop_flag w2" by (auto simp: waiting_def)
    have pw: "pause_wait (fst (check_focus env i (apply_calls (calls_top env i) v))) (calls_idle env i)
           = Some (w2, [])"
      unfolding w cf using nw by (simp add: pause_wait_not_waiting)
    have ns1: "\<not> stop_flag (apply_calls (calls_top env i) v)" using f(1) w by simp
    from loop_body_typing [OF ns1 pw ns2, where fm = fm] obtain st more where
      lb: "loop_body env fm i v = Some st"
      and acts: "step_actions st = fst (snd (emit_unit env fm i v)) @ more"
      and more: "\<forall>a \<in> set more. a \<noteq> FocusPaused \<and> a \<noteq> IdleSleep \<and> a \<noteq> Stopped \<and> \<not> is_typing a"
      unfolding w cf by auto
    have ty: "\<forall>a \<in> set (fst (snd (emit_unit env fm i v))). is_typing a"
      using emit_unit_typing by blast
    have "FocusPaused \<notin> set (step_actions st) \<and> IdleSleep \<notin> set (step_actions st)
        \<and> Stopped \<notin> set (step_actions st)"
      unfolding acts using more ty by auto
    with lb acts show ?thesis by blast
  qed
  have e: "\<exists>tr. run env w = Some (tr, w)
            \<and> FocusPaused \<notin> set tr \<and> IdleSleep \<notin> set tr \<and> Stopped \<notin> set tr
            \<and> ((\<forall>j. pyautogui_raises env j = None) \<and> (\<forall>d. \<not> sleep_overflows env d)
                 \<and> rand_min_ms w \<le> rand_max_ms w \<longrightarrow> last tr = Finished)"
    if h: "(\<forall>j. active_window env j = FgRaises \<and> calls_top env j = [] \<and> calls_query env j = []
            \<and> calls_emit env j = []) \<and> \<not> stop_flag w \<and> \<not> pause_flag w"
  proof -
    let ?fm = "base_delay_ms w = 0 \<and> \<not> use_random w"
    from h have q: "\<forall>j. active_window env j = FgRaises \<and> calls_top env j = []
        \<and> calls_query env j = [] \<and> calls_emit env j = []"
      and ns: "\<not> stop_flag w" and np: "\<not> pause_flag w" by simp_all
    from run_loop_unpaused [OF q ns np, of ?fm 0] obtain tr0 where
      r0: "run_loop env ?fm 0 w = Some (tr0, w)"
      and c0: "FocusPaused \<notin> set tr0 \<and> IdleSleep \<notin> set tr0 \<and> Stopped \<notin> set tr0"
      by blast
    obtain tr where r: "run env w = Some (tr, w)"
      and cl: "FocusPaused \<notin> set tr \<and> IdleSleep \<notin> set tr \<and> Stopped \<notin> set tr"
    proof (cases "length (text_str w) = 0")
      case True
      then have "run env w = Some ([Finished], w)" by (simp add: run_def)
      then show ?thesis by (rule that) simp
    next
      case False
      with r0 have "run env w = Some (tr0, w)" by (simp add: run_def Let_def)
      then show ?thesis using c0 by (rule that)
    qed
    have fin: "last tr = Finished"
      if g: "(\<forall>j. pyautogui_raises env j = None) \<and> (\<forall>d. \<not> sleep_overflows env d)
                 \<and> rand_min_ms w \<le> rand_max_ms w"
    proof -
      from run_terminal [OF r] obtain body t where
        tr: "tr = body @ [t]" and t: "is_terminal t" by blast
      have "t \<noteq> Stopped" using cl tr by auto
      moreover have "t \<noteq> Error x" for x
      proof
        assume "t = Error x"
        with tr have "Error x \<in> set tr" by simp
        from run_error_origin [OF r this] g show False by auto
      qed
      ultimately have "t = Finished" using t by (cases t) auto
      with tr show ?thesis by simp
    qed
    from r cl fin show ?thesis by blast
  qed
  from a b c d e show ?thesis by blast
qed

theorem C9_query_failure_ignored_witness:
  "\<not> stop_flag (TypingWorker_init (py ''ab'') 0 False 5 10 (Some (py ''Notepad'')))
   \<and> \<not> pause_flag (TypingWorker_init (py ''ab'') 0 False 5 10 (Some (py ''Notepad'')))
   \<and> truthy (target_window_title (TypingWorker_init (py ''ab'') 0 False 5 10 (Some (py ''Notepad''))))
   \<and> active_window ((quiet_env None)\<lparr>active_window := \<lambda>_. FgRaises\<rparr>) 0 = FgRaises
   \<and> check_focus ((quiet_env None)\<lparr>active_window := \<lambda>_. FgRaises\<rparr>) 0
       (TypingWorker_init (py ''ab'') 0 False 5 10 (Some (py ''Notepad'')))
     = (TypingWorker_init (py ''ab'') 0 False 5 10 (Some (py ''Notepad'')), [])
   \<and> active_window (quiet_env (Some (py ''Chrome''))) 0 = FgReturns (Some (py ''Chrome''))
   \<and> check_focus (quiet_env (Some (py ''Chrome''))) 0
       (TypingWorker_init (py ''ab'') 0 False 5 10 (Some (py ''Notepad'')))
     = ((TypingWorker_init (py ''ab'') 0 False 5 10 (Some (py ''Notepad'')))\<lparr>pause_flag := True\<rparr>,
        [FocusPaused])
   \<and> check_focus (quiet_env (Some (py ''Notepad''))) 0
       (TypingWorker_init (py ''ab'') 0 False 5 10 (Some (py ''Notepad'')))
     = (TypingWorker_init (py ''ab'') 0 False 5 10 (Some (py ''Notepad'')), [])
   \<and> (\<exists>tr. run ((quiet_env None)\<lparr>active_window := \<lambda>_. FgRaises\<rparr>)
              (TypingWorker_init (py ''ab'') 0 False 5 10 (Some (py ''Notepad'')))
            = Some (tr, TypingWorker_init (py ''ab'') 0 False 5 10 (Some (py ''Notepad'')))
          \<and> FocusPaused \<notin> set tr \<and> last tr = Finished)"
proof -
  let ?w = "TypingWorker_init (py ''ab'') 0 False 5 10 (Some (py ''Notepad''))"
  let ?e = "(quiet_env None)\<lparr>active_window := \<lambda>_. FgRaises\<rparr>"
  have h: "\<not> stop_flag ?w \<and> \<not> pause_flag ?w \<and> truthy (target_window_title ?w)"
    by (simp add: TypingWorker_init_def truthy_def py_def Let_def)
  have a: "active_window ?e 0 = FgRaises" "calls_query ?e 0 = []"
    by (simp_all add: quiet_env_def)
  have q: "\<forall>j. active_window ?e j = FgRaises \<and> calls_top ?e j = [] \<and> calls_query ?e j = []
            \<and> calls_emit ?e j = []"
    by (simp add: quiet_env_def)
  have g: "(\<forall>j. pyautogui_raises ?e j = None) \<and> (\<forall>d. \<not> sleep_overflows ?e d)
       \<and> rand_min_ms ?w \<le> rand_max_ms ?w"
    by (simp add: quiet_env_def TypingWorker_init_def Let_def)
  have c: "active_window (quiet_env (Some (py ''Chrome''))) 0 = FgReturns (Some (py ''Chrome''))"
    "active_window (quiet_env (Some (py ''Notepad''))) 0 = FgReturns (Some (py ''Notepad''))"
    by (simp_all add: quiet_env_def)
  have t: "target_window_title
        (apply_calls (calls_query (quiet_env (Some (py ''Chrome''))) 0) ?w) = Some (py ''Notepad'')"
    "target_window_title
        (apply_calls (calls_query (quiet_env (Some (py ''Notepad''))) 0) ?w) = Some (py ''Notepad'')"
    "apply_calls (calls_query (quiet_env (Some (py ''Chrome''))) 0) ?w = ?w"
    "apply_calls (calls_query (quiet_env (Some (py ''Notepad''))) 0) ?w = ?w"
    "truthy (Some (py ''Chrome''))" "truthy (Some (py ''Notepad''))"
    "Some (py ''Chrome'') \<noteq> Some (py ''Notepad'')"
    by (simp_all add: quiet_env_def apply_calls_def TypingWorker_init_def Let_def truthy_def py_def)
  note th1 = C9_query_failure_ignored [of ?w ?e 0]
  note th2 = C9_query_failure_ignored [of ?w "quiet_env (Some (py ''Chrome''))" 0]
  note th3 = C9_query_failure_ignored [of ?w "quiet_env (Some (py ''Notepad''))" 0]
  have 1: "check_focus ?e 0 ?w = (?w, [])" using th1 h a by blast
  have 2: "check_focus (quiet_env (Some (py ''Chrome''))) 0 ?w = (?w\<lparr>pause_flag := True\<rparr>, [FocusPaused])"
    using th2 h c(1) t by simp
  have 3: "check_focus (quiet_env (Some (py ''Notepad''))) 0 ?w = (?w, [])"
    using th3 h c(2) t by simp
  have 4: "\<exists>tr. run ?e ?w = Some (tr, ?w) \<and> FocusPaused \<notin> set tr \<and> last tr = Finished"
    using th1 h q g by blast
  from h a(1) c(1) 1 2 3 4 show ?thesis by blast
qed

text \<open>
  C6: when the focus check of the pass at cursor \<open>i\<close> finds a foreground title different
  from the worker's target, it sets the pause flag and emits the focus-lost notification,
  and leaves the text alone. The pass then sleeps in the pause loop for as long as the
  worker is paused and not stopped: it never ends when the control thread never resumes or
  stops the worker, and otherwise it leaves the loop after the first idle sleep \<open>k\<close> at
  which the worker is no longer waiting, at least one sleep unless the worker was stopped
  during the query. If the worker is stopped then, the pass emits \<^verbatim>\<open>stopped\<close> and types
  nothing. Otherwise \<^verbatim>\<open>resume()\<close> has been called during these sleeps, and the pass types
  the unit that starts at the same cursor \<open>i\<close> of the same text, and only then moves the
  cursor past that unit.
\<close>

theorem C6_focus_pause_keeps_cursor:
  assumes "w1 = apply_calls (calls_top env i) w"
    and "\<not> stop_flag w1" and "\<not> pause_flag w1" and "truthy (target_window_title w1)"
    and "active_window env i = FgReturns t"
    and "t \<noteq> target_window_title (apply_calls (calls_query env i) w1)"
    and "v = (apply_calls (calls_query env i) w1)\<lparr>pause_flag := True\<rparr>"
    and "ts = calls_idle env i"
  shows "check_focus env i w1 = (v, [FocusPaused])
       \<and> pause_flag v \<and> text_str v = text_str w
       \<and> (loop_body env fm i w = None \<longleftrightarrow> (\<forall>k \<le> length ts. waiting (idle_state v ts k)))
       \<and> (\<forall>k \<le> length ts.
             (\<forall>j < k. waiting (idle_state v ts j)) \<and> \<not> waiting (idle_state v ts k) \<longrightarrow>
             (\<not> stop_flag v \<longrightarrow> 1 \<le> k)
             \<and> text_str (idle_state v ts k) = text_str w
             \<and> (stop_flag (idle_state v ts k) \<longrightarrow>
                  loop_body env fm i w
                    = Some (Halt (FocusPaused # replicate k IdleSleep @ [Stopped]) (idle_state v ts k)))
             \<and> (\<not> stop_flag (idle_state v ts k) \<longrightarrow>
                  (\<exists>cs \<in> set (take k ts). CallResume \<in> set cs)
                  \<and> (\<exists>st more. loop_body env fm i w = Some st
                        \<and> step_actions st = FocusPaused # replicate k IdleSleep
                              @ fst (snd (emit_unit env fm i w)) @ more
                        \<and> (\<forall>a \<in> set more. \<not> is_typing a)
                        \<and> (\<forall>i' acts u. st = Next i' acts u \<longrightarrow> i' = fst (emit_unit env fm i w))
                        \<and> (snd (snd (emit_unit env fm i w)) = None
                             \<and> (fm \<or> snd (unit_delay env w (randint_raw env i)) = None) \<longrightarrow>
                            (\<exists>acts. st = Next (fst (emit_unit env fm i w)) acts
                                       (apply_calls (calls_emit env i) (idle_state v ts k)))))))
       \<and> (\<forall>st. loop_body env fm i w = Some st \<longrightarrow>
             (\<exists>k rest. k \<le> length ts \<and> (\<not> stop_flag v \<longrightarrow> 1 \<le> k)
                \<and> (\<forall>j < k. waiting (idle_state v ts j)) \<and> \<not> waiting (idle_state v ts k)
                \<and> step_actions st = FocusPaused # replicate k IdleSleep @ rest
                \<and> (rest = [Stopped] \<or> (\<exists>more. rest = fst (snd (emit_unit env fm i w)) @ more))
                \<and> (\<forall>i' acts u. st = Next i' acts u \<longrightarrow> i' = fst (emit_unit env fm i w))))"
proof -
  have cf: "check_focus env i w1 = (v, [FocusPaused])"
    using assms(2-7) by (simp add: check_focus_def Let_def)
  have pf: "pause_flag v" by (simp add: assms(7))
  have tx: "text_str v = text_str w"
  proof -
    have "text_str (fst (check_focus env i w1)) = text_str w1" by (rule text_check_focus)
    moreover have "text_str w1 = text_str w" unfolding assms(1) by (rule text_apply_calls)
    moreover have "fst (check_focus env i w1) = v" using cf by simp
    ultimately show ?thesis by simp
  qed
  have ns1: "\<not> stop_flag (apply_calls (calls_top env i) w)" using assms(1,2) by simp
  have cf1: "check_focus env i (apply_calls (calls_top env i) w) = (v, [FocusPaused])"
    using cf assms(1) by simp
  have txk: "text_str (idle_state v ts k) = text_str w" for k
    using same_config_idle_state [of v ts k] tx by (simp add: same_config_def)
  have one: "1 \<le> k" if "\<not> waiting (idle_state v ts k)" "\<not> stop_flag v" for k
  proof (rule ccontr)
    assume "\<not> 1 \<le> k"
    then have "k = 0" by simp
    with that pf show False by (simp add: waiting_def)
  qed
  \<comment> \<open>what the pass does once the pause loop has returned\<close>
  have stopped: "loop_body env fm i w = Some (Halt (FocusPaused # a3 @ [Stopped]) w3)"
    if "pause_wait v ts = Some (w3, a3)" "stop_flag w3" for w3 a3
  proof -
    from that(1) have "pause_wait (fst (check_focus env i (apply_calls (calls_top env i) w)))
        (calls_idle env i) = Some (w3, a3)"
      by (simp add: cf1 assms(8))
    from loop_body_stopped_idle [OF ns1 this that(2), of fm] show ?thesis by (simp add: cf1)
  qed
  have typed: "\<exists>st more. loop_body env fm i w = Some st
        \<and> step_actions st = FocusPaused # a3 @ fst (snd (emit_unit env fm i w)) @ more
        \<and> (\<forall>a \<in> set more. \<not> is_typing a)
        \<and> (\<forall>i' acts u. st = Next i' acts u \<longrightarrow> i' = fst (emit_unit env fm i w))
        \<and> (snd (snd (emit_unit env fm i w)) = None
             \<and> (fm \<or> snd (unit_delay env w (randint_raw env i)) = None) \<longrightarrow>
            (\<exists>acts. st = Next (fst (emit_unit env fm i w)) acts (apply_calls (calls_emit env i) w3)))"
    if "pause_wait v ts = Some (w3, a3)" "\<not> stop_flag w3" for w3 a3
  proof -
    from that(1) have "pause_wait (fst (check_focus env i (apply_calls (calls_top env i) w)))
        (calls_idle env i) = Some (w3, a3)"
      by (simp add: cf1 assms(8))
    note t = loop_body_typing [OF ns1 this that(2), where fm = fm, unfolded cf1 snd_conv]
    from t obtain st where "\<exists>more. loop_body env fm i w = Some st
      \<and> step_actions st = [FocusPaused] @ a3 @ fst (snd (emit_unit env fm i w)) @ more
      \<and> (\<forall>a \<in> set more. a \<noteq> FocusPaused \<and> a \<noteq> IdleSleep \<and> a \<noteq> Stopped \<and> \<not> is_typing a)
      \<and> (\<forall>i' acts u. st = Next i' acts u \<longrightarrow> i' = fst (emit_unit env fm i w))
      \<and> (\<forall>i' acts u. st = Next i' acts u \<or> st = Halt acts u \<longrightarrow>
            u = apply_calls (calls_emit env i) w3)
      \<and> (snd (snd (emit_unit env fm i w)) = None
           \<and> (fm \<or> snd (unit_delay env w (randint_raw env i)) = None) \<longrightarrow>
          (\<exists>acts. st = Next (fst (emit_unit env fm i w)) acts (apply_calls (calls_emit env i) w3)))" ..
    then obtain more where t2: "loop_body env fm i w = Some st
      \<and> step_actions st = [FocusPaused] @ a3 @ fst (snd (emit_unit env fm i w)) @ more
      \<and> (\<forall>a \<in> set more. a \<noteq> FocusPaused \<and> a \<noteq> IdleSleep \<and> a \<noteq> Stopped \<and> \<not> is_typing a)
      \<and> (\<forall>i' acts u. st = Next i' acts u \<longrightarrow> i' = fst (emit_unit env fm i w))
      \<and> (\<forall>i' acts u. st = Next i' acts u \<or> st = Halt acts u \<longrightarrow>
            u = apply_calls (calls_emit env i) w3)
      \<and> (snd (snd (emit_unit env fm i w)) = None
           \<and> (fm \<or> snd (unit_delay env w (randint_raw env i)) = None) \<longrightarrow>
          (\<exists>acts. st = Next (fst (emit_unit env fm i w)) acts (apply_calls (calls_emit env i) w3)))" ..
    note l = t2 [THEN conjunct1]
    note s = t2 [THEN conjunct2, THEN conjunct1]
    note m = t2 [THEN conjunct2, THEN conjunct2, THEN conjunct1]
    note n = t2 [THEN conjunct2, THEN conjunct2, THEN conjunct2, THEN conjunct1]
    note g = t2 [THEN conjunct2, THEN conjunct2, THEN conjunct2, THEN conjunct2, THEN conjunct2]
    from s have s': "step_actions st = FocusPaused # a3 @ fst (snd (emit_unit env fm i w)) @ more"
      by simp
    from m have m': "\<forall>a \<in> set more. \<not> is_typing a" by simp
    have "loop_body env fm i w = Some st
        \<and> step_actions st = FocusPaused # a3 @ fst (snd (emit_unit env fm i w)) @ more
        \<and> (\<forall>a \<in> set more. \<not> is_typing a)
        \<and> (\<forall>i' acts u. st = Next i' acts u \<longrightarrow> i' = fst (emit_unit env fm i w))
        \<and> (snd (snd (emit_unit env fm i w)) = None
             \<and> (fm \<or> snd (unit_delay env w (randint_raw env i)) = None) \<longrightarrow>
            (\<exists>acts. st = Next (fst (emit_unit env fm i w)) acts (apply_calls (calls_emit env i) w3)))"
      by (rule conjI [OF l conjI [OF s' conjI [OF m' conjI [OF n g]]]])
    then show ?thesis by (intro exI [of _ st] exI [of _ more])
  qed
  \<comment> \<open>the pass never ends exactly when the worker keeps waiting\<close>
  have never: "loop_body env fm i w = None \<longleftrightarrow> (\<forall>k \<le> length ts. waiting (idle_state v ts k))"
  proof -
    have "loop_body env fm i w = None \<longleftrightarrow> pause_wait v ts = None"
    proof
      assume n: "loop_body env fm i w = None"
      show "pause_wait v ts = None"
      proof (cases "pause_wait v ts")
        case None
        then show ?thesis .
      next
        case (Some r)
        obtain w3 a3 where r: "r = (w3, a3)" by (cases r) auto
        show ?thesis
        proof (cases "stop_flag w3")
          case True
          from stopped [OF Some [unfolded r] True] n show ?thesis by simp
        next
          case False
          from typed [OF Some [unfolded r] False] obtain st where
            "\<exists>more. loop_body env fm i w = Some st
              \<and> step_actions st = FocusPaused # a3 @ fst (snd (emit_unit env fm i w)) @ more
              \<and> (\<forall>a \<in> set more. \<not> is_typing a)
              \<and> (\<forall>i' acts u. st = Next i' acts u \<longrightarrow> i' = fst (emit_unit env fm i w))
              \<and> (snd (snd (emit_unit env fm i w)) = None
                   \<and> (fm \<or> snd (unit_delay env w (randint_raw env i)) = None) \<longrightarrow>
                  (\<exists>acts. st = Next (fst (emit_unit env fm i w)) acts
                             (apply_calls (calls_emit env i) w3)))" ..
          then have "loop_body env fm i w = Some st" by (elim exE conjE)
          with n show ?thesis by simp
        qed
      qed
    next
      assume "pause_wait v ts = None"
      then have "pause_wait (fst (check_focus env i (apply_calls (calls_top env i) w)))
          (calls_idle env i) = None"
        by (simp add: cf1 assms(8))
      from loop_body_waits [OF ns1 this] show "loop_body env fm i w = None" .
    qed
    then show ?thesis by (simp add: pause_wait_never)
  qed
  \<comment> \<open>the first idle tick at which the worker is not waiting\<close>
  have first: "(\<not> stop_flag v \<longrightarrow> 1 \<le> k)
             \<and> text_str (idle_state v ts k) = text_str w
             \<and> (stop_flag (idle_state v ts k) \<longrightarrow>
                  loop_body env fm i w
                    = Some (Halt (FocusPaused # replicate k IdleSleep @ [Stopped]) (idle_state v ts k)))
             \<and> (\<not> stop_flag (idle_state v ts k) \<longrightarrow>
                  (\<exists>cs \<in> set (take k ts). CallResume \<in> set cs)
                  \<and> (\<exists>st more. loop_body env fm i w = Some st
                        \<and> step_actions st = FocusPaused # replicate k IdleSleep
                              @ fst (snd (emit_unit env fm i w)) @ more
                        \<and> (\<forall>a \<in> set more. \<not> is_typing a)
                        \<and> (\<forall>i' acts u. st = Next i' acts u \<longrightarrow> i' = fst (emit_unit env fm i w))
                        \<and> (snd (snd (emit_unit env fm i w)) = None
                             \<and> (fm \<or> snd (unit_delay env w (randint_raw env i)) = None) \<longrightarrow>
                            (\<exists>acts. st = Next (fst (emit_unit env fm i w)) acts
                                       (apply_calls (calls_emit env i) (idle_state v ts k))))))"
    if k: "k \<le> length ts" and h: "(\<forall>j < k. waiting (idle_state v ts j)) \<and> \<not> waiting (idle_state v ts k)"
    for k
  proof -
    from h have nw: "\<not> waiting (idle_state v ts k)" and bef: "\<forall>j < k. waiting (idle_state v ts j)"
      by simp_all
    from pause_wait_first [OF k nw bef]
    have pw: "pause_wait v ts = Some (idle_state v ts k, replicate k IdleSleep)" .
    have a: "\<not> stop_flag v \<longrightarrow> 1 \<le> k" using one [OF nw] by simp
    have b: "stop_flag (idle_state v ts k) \<longrightarrow>
        loop_body env fm i w
          = Some (Halt (FocusPaused # replicate k IdleSleep @ [Stopped]) (idle_state v ts k))"
      using stopped [OF pw] by simp
    have c: "\<exists>cs \<in> set (take k ts). CallResume \<in> set cs" if "\<not> stop_flag (idle_state v ts k)"
    proof -
      from nw that have "\<not> pause_flag (idle_state v ts k)" by (simp add: waiting_def)
      with pf show ?thesis by (rule resumed_by_call)
    qed
    have d: "\<not> stop_flag (idle_state v ts k) \<longrightarrow>
                  (\<exists>cs \<in> set (take k ts). CallResume \<in> set cs)
                  \<and> (\<exists>st more. loop_body env fm i w = Some st
                        \<and> step_actions st = FocusPaused # replicate k IdleSleep
                              @ fst (snd (emit_unit env fm i w)) @ more
                        \<and> (\<forall>a \<in> set more. \<not> is_typing a)
                        \<and> (\<forall>i' acts u. st = Next i' acts u \<longrightarrow> i' = fst (emit_unit env fm i w))
                        \<and> (snd (snd (emit_unit env fm i w)) = None
                             \<and> (fm \<or> snd (unit_delay env w (randint_raw env i)) = None) \<longrightarrow>
                            (\<exists>acts. st = Next (fst (emit_unit env fm i w)) acts
                                       (apply_calls (calls_emit env i) (idle_state v ts k)))))"
    proof (intro impI conjI)
      assume ns: "\<not> stop_flag (idle_state v ts k)"
      show "\<exists>cs \<in> set (take k ts). CallResume \<in> set cs" by (rule c [OF ns])
      show "\<exists>st more. loop_body env fm i w = Some st
                        \<and> step_actions st = FocusPaused # replicate k IdleSleep
                              @ fst (snd (emit_unit env fm i w)) @ more
                        \<and> (\<forall>a \<in> set more. \<not> is_typing a)
                        \<and> (\<forall>i' acts u. st = Next i' acts u \<longrightarrow> i' = fst (emit_unit env fm i w))
                        \<and> (snd (snd (emit_unit env fm i w)) = None
                             \<and> (fm \<or> snd (unit_delay env w (randint_raw env i)) = None) \<longrightarrow>
                            (\<exists>acts. st = Next (fst (emit_unit env fm i w)) acts
                                       (apply_calls (calls_emit env i) (idle_state v ts k))))"
        by (rule typed [OF pw ns])
    qed
    show ?thesis by (rule conjI [OF a conjI [OF txk conjI [OF b d]]])
  qed
  \<comment> \<open>whatever the pass returns\<close>
  have any: "\<exists>k rest. k \<le> length ts \<and> (\<not> stop_flag v \<longrightarrow> 1 \<le> k)
                \<and> (\<forall>j < k. waiting (idle_state v ts j)) \<and> \<not> waiting (idle_state v ts k)
                \<and> step_actions st = FocusPaused # replicate k IdleSleep @ rest
                \<and> (rest = [Stopped] \<or> (\<exists>more. rest = fst (snd (emit_unit env fm i w)) @ more))
                \<and> (\<forall>i' acts u. st = Next i' acts u \<longrightarrow> i' = fst (emit_unit env fm i w))"
    if b: "loop_body env fm i w = Some st" for st
  proof -
    from b never have "\<not> (\<forall>k \<le> length ts. waiting (idle_state v ts k))" by simp
    then have "pause_wait v ts \<noteq> None" by (simp add: pause_wait_never)
    then obtain w3 a3 where pw: "pause_wait v ts = Some (w3, a3)" by (cases "pause_wait v ts") auto
    from pause_wait_exact [OF pw] obtain k where k: "k \<le> length ts"
      and w3: "w3 = idle_state v ts k" and a3: "a3 = replicate k IdleSleep"
      and nw: "\<not> waiting (idle_state v ts k)" and bef: "\<forall>j < k. waiting (idle_state v ts j)"
      by blast
    have a: "\<not> stop_flag v \<longrightarrow> 1 \<le> k" using one [OF nw] by simp
    show ?thesis
    proof (cases "stop_flag w3")
      case True
      from stopped [OF pw True] b have "st = Halt (FocusPaused # a3 @ [Stopped]) w3" by simp
      then have "step_actions st = FocusPaused # replicate k IdleSleep @ [Stopped]"
        "\<forall>i' acts u. st \<noteq> Next i' acts u"
        by (simp_all add: a3)
      with k a nw bef show ?thesis by (intro exI [of _ k] exI [of _ "[Stopped]"]) simp
    next
      case False
      from typed [OF pw False] obtain st' where
        "\<exists>more. loop_body env fm i w = Some st'
              \<and> step_actions st' = FocusPaused # a3 @ fst (snd (emit_unit env fm i w)) @ more
              \<and> (\<forall>a \<in> set more. \<not> is_typing a)
              \<and> (\<forall>i' acts u. st' = Next i' acts u \<longrightarrow> i' = fst (emit_unit env fm i w))
              \<and> (snd (snd (emit_unit env fm i w)) = None
                   \<and> (fm \<or> snd (unit_delay env w (randint_raw env i)) = None) \<longrightarrow>
                  (\<exists>acts. st' = Next (fst (emit_unit env fm i w)) acts
                             (apply_calls (calls_emit env i) w3)))" ..
      then obtain more where t2: "loop_body env fm i w = Some st'
              \<and> step_actions st' = FocusPaused # a3 @ fst (snd (emit_unit env fm i w)) @ more
              \<and> (\<forall>a \<in> set more. \<not> is_typing a)
              \<and> (\<forall>i' acts u. st' = Next i' acts u \<longrightarrow> i' = fst (emit_unit env fm i w))
              \<and> (snd (snd (emit_unit env fm i w)) = None
                   \<and> (fm \<or> snd (unit_delay env w (randint_raw env i)) = None) \<longrightarrow>
                  (\<exists>acts. st' = Next (fst (emit_unit env fm i w)) acts
                             (apply_calls (calls_emit env i) w3)))" ..
      from t2 [THEN conjunct1] b have eq: "st' = st" by simp
      have s: "step_actions st
          = FocusPaused # replicate k IdleSleep @ fst (snd (emit_unit env fm i w)) @ more"
        using t2 [THEN conjunct2, THEN conjunct1] by (simp add: eq a3)
      have n: "\<forall>i' acts u. st = Next i' acts u \<longrightarrow> i' = fst (emit_unit env fm i w)"
        using t2 [THEN conjunct2, THEN conjunct2, THEN conjunct2, THEN conjunct1] by (simp add: eq)
      have r: "fst (snd (emit_unit env fm i w)) @ more = [Stopped]
          \<or> (\<exists>m. fst (snd (emit_unit env fm i w)) @ more = fst (snd (emit_unit env fm i w)) @ m)"
        by blast
      have "k \<le> length ts \<and> (\<not> stop_flag v \<longrightarrow> 1 \<le> k)
                \<and> (\<forall>j < k. waiting (idle_state v ts j)) \<and> \<not> waiting (idle_state v ts k)
                \<and> step_actions st = FocusPaused # replicate k IdleSleep
                      @ (fst (snd (emit_unit env fm i w)) @ more)
                \<and> (fst (snd (emit_unit env fm i w)) @ more = [Stopped]
                    \<or> (\<exists>m. fst (snd (emit_unit env fm i w)) @ more
                            = fst (snd (emit_unit env fm i w)) @ m))
                \<and> (\<forall>i' acts u. st = Next i' acts u \<longrightarrow> i' = fst (emit_unit env fm i w))"
        by (rule conjI [OF k conjI [OF a conjI [OF bef conjI [OF nw conjI [OF s conjI [OF r n]]]]]])
      then show ?thesis
        by (intro exI [of _ k] exI [of _ "fst (snd (emit_unit env fm i w)) @ more"])
    qed
  qed
  have first': "\<forall>k \<le> length ts.
             (\<forall>j < k. waiting (idle_state v ts j)) \<and> \<not> waiting (idle_state v ts k) \<longrightarrow>
             (\<not> stop_flag v \<longrightarrow> 1 \<le> k)
             \<and> text_str (idle_state v ts k) = text_str w
             \<and> (stop_flag (idle_state v ts k) \<longrightarrow>
                  loop_body env fm i w
                    = Some (Halt (FocusPaused # replicate k IdleSleep @ [Stopped]) (idle_state v ts k)))
             \<and> (\<not> stop_flag (idle_state v ts k) \<longrightarrow>
                  (\<exists>cs \<in> set (take k ts). CallResume \<in> set cs)
                  \<and> (\<exists>st more. loop_body env fm i w = Some st
                        \<and> step_actions st = FocusPaused # replicate k IdleSleep
                              @ fst (snd (emit_unit env fm i w)) @ more
                        \<and> (\<forall>a \<in> set more. \<not> is_typing a)
                        \<and> (\<forall>i' acts u. st = Next i' acts u \<longrightarrow> i' = fst (emit_unit env fm i w))
                        \<and> (snd (snd (emit_unit env fm i w)) = None
                             \<and> (fm \<or> snd (unit_delay env w (randint_raw env i)) = None) \<longrightarrow>
                            (\<exists>acts. st = Next (fst (emit_unit env fm i w)) acts
                                       (apply_calls (calls_emit env i) (idle_state v ts k))))))"
  proof (intro allI impI)
    fix k
    assume "k \<le> length ts"
      "(\<forall>j < k. waiting (idle_state v ts j)) \<and> \<not> waiting (idle_state v ts k)"
    then show "(\<not> stop_flag v \<longrightarrow> 1 \<le> k)
             \<and> text_str (idle_state v ts k) = text_str w
             \<and> (stop_flag (idle_state v ts k) \<longrightarrow>
                  loop_body env fm i w
                    = Some (Halt (FocusPaused # replicate k IdleSleep @ [Stopped]) (idle_state v ts k)))
             \<and> (\<not> stop_flag (idle_state v ts k) \<longrightarrow>
                  (\<exists>cs \<in> set (take k ts). CallResume \<in> set cs)
                  \<and> (\<exists>st more. loop_body env fm i w = Some st
                        \<and> step_actions st = FocusPaused # replicate k IdleSleep
                              @ fst (snd (emit_unit env fm i w)) @ more
                        \<and> (\<forall>a \<in> set more. \<not> is_typing a)
                        \<and> (\<forall>i' acts u. st = Next i' acts u \<longrightarrow> i' = fst (emit_unit env fm i w))
                        \<and> (snd (snd (emit_unit env fm i w)) = None
                             \<and> (fm \<or> snd (unit_delay env w (randint_raw env i)) = None) \<longrightarrow>
                            (\<exists>acts. st = Next (fst (emit_unit env fm i w)) acts
                                       (apply_calls (calls_emit env i) (idle_state v ts k))))))"
      by (rule first)
  qed
  have any': "\<forall>st. loop_body env fm i w = Some st \<longrightarrow>
             (\<exists>k rest. k \<le> length ts \<and> (\<not> stop_flag v \<longrightarrow> 1 \<le> k)
                \<and> (\<forall>j < k. waiting (idle_state v ts j)) \<and> \<not> waiting (idle_state v ts k)
                \<and> step_actions st = FocusPaused # replicate k IdleSleep @ rest
                \<and> (rest = [Stopped] \<or> (\<exists>more. rest = fst (snd (emit_unit env fm i w)) @ more))
                \<and> (\<forall>i' acts u. st = Next i' acts u \<longrightarrow> i' = fst (emit_unit env fm i w)))"
  proof (intro allI impI)
    fix st
    assume "loop_body env fm i w = Some st"
    then show "\<exists>k rest. k \<le> length ts \<and> (\<not> stop_flag v \<longrightarrow> 1 \<le> k)
                \<and> (\<forall>j < k. waiting (idle_state v ts j)) \<and> \<not> waiting (idle_state v ts k)
                \<and> step_actions st = FocusPaused # replicate k IdleSleep @ rest
                \<and> (rest = [Stopped] \<or> (\<exists>more. rest = fst (snd (emit_unit env fm i w)) @ more))
                \<and> (\<forall>i' acts u. st = Next i' acts u \<longrightarrow> i' = fst (emit_unit env fm i w))"
      by (rule any)
  qed
  show ?thesis
    by (rule conjI [OF cf conjI [OF pf conjI [OF tx conjI [OF never conjI [OF first' any']]]]])
qed

theorem C6_focus_pause_keeps_cursor_witness:
  "check_focus focus_switch_env 0 (notepad_worker (py ''ab''))
     = ((notepad_worker (py ''ab''))\<lparr>pause_flag := True\<rparr>, [FocusPaused])
   \<and> waiting (idle_state ((notepad_worker (py ''ab''))\<lparr>pause_flag := True\<rparr>)
                 (calls_idle focus_switch_env 0) 0)
   \<and> waiting (idle_state ((notepad_worker (py ''ab''))\<lparr>pause_flag := True\<rparr>)
                 (calls_idle focus_switch_env 0) 1)
   \<and> \<not> waiting (idle_state ((notepad_worker (py ''ab''))\<lparr>pause_flag := True\<rparr>)
                 (calls_idle focus_switch_env 0) 2)
   \<and> (\<exists>cs \<in> set (take 2 (calls_idle focus_switch_env 0)). CallResume \<in> set cs)
   \<and> loop_body focus_switch_env True 0 (notepad_worker (py ''ab''))
     = Some (Next 2 [FocusPaused, IdleSleep, IdleSleep, KeyboardWrite (py ''ab''), ProgressChanged 100]
          ((notepad_worker (py ''ab''))\<lparr>target_window_title := Some (py ''Chrome'')\<rparr>))
   \<and> emit_unit focus_switch_env True 0 (notepad_worker (py ''ab''))
     = (2, [KeyboardWrite (py ''ab'')], None)
   \<and> loop_body (quiet_env (Some (py ''Chrome''))) True 0 (notepad_worker (py ''ab'')) = None"
proof -
  let ?w = "notepad_worker (py ''ab'')"
  let ?e = focus_switch_env
  let ?q = "quiet_env (Some (py ''Chrome''))"
  let ?v = "?w\<lparr>pause_flag := True\<rparr>"
  have w1: "?w = apply_calls (calls_top ?e 0) ?w"
    by (simp add: focus_switch_env_def quiet_env_def apply_calls_def)
  have h: "\<not> stop_flag ?w" "\<not> pause_flag ?w" "truthy (target_window_title ?w)"
    "active_window ?e 0 = FgReturns (Some (py ''Chrome''))"
    "Some (py ''Chrome'') \<noteq> target_window_title (apply_calls (calls_query ?e 0) ?w)"
    by (simp_all add: notepad_worker_def focus_switch_env_def eval_simps)
  have v: "?v = (apply_calls (calls_query ?e 0) ?w)\<lparr>pause_flag := True\<rparr>"
    by (simp add: focus_switch_env_def quiet_env_def apply_calls_def)
  have ts: "calls_idle ?e 0 = [[], [CallSetTargetWindow (Some (py ''Chrome'')), CallResume]]"
    by (simp add: focus_switch_env_def)
  have i0: "idle_state ?v (calls_idle ?e 0) 0 = ?v" by simp
  have i1: "idle_state ?v (calls_idle ?e 0) 1 = ?v"
    by (simp add: ts idle_state_def apply_calls_def)
  have i2: "idle_state ?v (calls_idle ?e 0) 2
      = ?w\<lparr>target_window_title := Some (py ''Chrome'')\<rparr>"
    by (simp add: ts idle_state_def apply_calls_def notepad_worker_def TypingWorker_init_def Let_def
          set_target_window_def resume_def)
  have wv: "waiting ?v"
    by (simp add: waiting_def notepad_worker_def TypingWorker_init_def Let_def)
  have nw: "\<not> waiting (?w\<lparr>target_window_title := Some (py ''Chrome'')\<rparr>)"
    "\<not> stop_flag (?w\<lparr>target_window_title := Some (py ''Chrome'')\<rparr>)"
    by (simp_all add: waiting_def notepad_worker_def TypingWorker_init_def Let_def)
  have bef: "\<forall>j < 2. waiting (idle_state ?v (calls_idle ?e 0) j)"
  proof (intro allI impI)
    fix j :: nat
    assume "j < 2"
    then have "j = 0 \<or> j = 1" by auto
    with wv i0 i1 show "waiting (idle_state ?v (calls_idle ?e 0) j)" by auto
  qed
  have len: "(2::nat) \<le> length (calls_idle ?e 0)" by (simp add: ts)
  note th = C6_focus_pause_keeps_cursor [OF w1 h v refl, of True]
  from th have cf: "check_focus ?e 0 ?w = (?v, [FocusPaused])" by (rule conjunct1)
  have nw2: "\<not> waiting (idle_state ?v (calls_idle ?e 0) 2)"
    "\<not> stop_flag (idle_state ?v (calls_idle ?e 0) 2)"
    unfolding i2 by (rule nw)+
  note k2 = th [THEN conjunct2, THEN conjunct2, THEN conjunct2, THEN conjunct2, THEN conjunct1,
      rule_format, of 2, OF len conjI [OF bef nw2(1)]]
  note r2 = k2 [THEN conjunct2, THEN conjunct2, THEN conjunct2, THEN mp, OF nw2(2)]
  from r2 have res: "\<exists>cs \<in> set (take 2 (calls_idle ?e 0)). CallResume \<in> set cs"
    by (rule conjunct1)
  have lb: "loop_body ?e True 0 ?w
     = Some (Next 2 [FocusPaused, IdleSleep, IdleSleep, KeyboardWrite (py ''ab''), ProgressChanged 100]
          (?w\<lparr>target_window_title := Some (py ''Chrome'')\<rparr>))"
    by (simp add: notepad_worker_def focus_switch_env_def eval_simps)
  have eu: "emit_unit ?e True 0 ?w = (2, [KeyboardWrite (py ''ab'')], None)"
    by (simp add: notepad_worker_def focus_switch_env_def eval_simps)
  have nn: "loop_body ?q True 0 ?w = None"
    by (simp add: notepad_worker_def eval_simps)
  from cf wv i0 i1 i2 nw res lb eu nn show ?thesis by simp
qed

subsection \<open>The fast path\<close>

text \<open>
  C2: \<^verbatim>\<open>fast_mode\<close> is \<open>base_delay_ms = 0\<close> and no jitter. Outside it every write of a run is a
  single character, and a run that finishes has typed the text character by character. In
  it, the unit at a fast character is the longest run of fast characters from the cursor,
  cut at 40, written by one call of the write primitive, and the cursor moves past it; the
  unit at any other character is that character alone. The units of the text start at
  cursor \<open>0\<close> and then where the previous unit ended. A run in fast mode types these units
  in order, all of them when it finishes, and nothing else; it makes no delay sleep and
  draws no jitter, and each of its batched writes has between 1 and 40 characters. In
  particular a text of at most 40 fast characters is typed by a single batched write.
\<close>

theorem C2_fast_path:
  "(\<forall>env tr w' s. \<not> (base_delay_ms w = 0 \<and> \<not> use_random w) \<and> run env w = Some (tr, w')
        \<and> (KeyboardWrite s \<in> set tr \<or> PyautoWrite s \<in> set tr) \<longrightarrow> length s = 1)
   \<and> (\<forall>env i. i < length (text_str w) \<and> is_fast_char (text_str w ! i) \<longrightarrow>
        (\<exists>c. c = take 40 (takeWhile is_fast_char (drop i (text_str w)))
           \<and> c \<noteq> [] \<and> length c \<le> 40
           \<and> emit_unit env True i w =
                (i + length c,
                 fst (safe_write (keyboard_raises env i)
                        (map_option PyautoguiError (pyautogui_raises env i)) c),
                 snd (safe_write (keyboard_raises env i)
                        (map_option PyautoguiError (pyautogui_raises env i)) c))
           \<and> hd (fst (snd (emit_unit env True i w))) = KeyboardWrite c
           \<and> emit_unit env False i w =
                (Suc i,
                 type_char (keyboard_raises env i)
                    (map_option PyautoguiError (pyautogui_raises env i)) (text_str w ! i))))
   \<and> (\<forall>env i. \<not> is_fast_char (text_str w ! i) \<longrightarrow>
        emit_unit env True i w =
          (Suc i,
           type_char (keyboard_raises env i)
              (map_option PyautoguiError (pyautogui_raises env i)) (text_str w ! i)))
   \<and> (\<forall>env tr w'. base_delay_ms w = 0 \<and> \<not> use_random w \<and> run env w = Some (tr, w') \<longrightarrow>
        (\<forall>d. DelaySleep d \<notin> set tr) \<and> (\<forall>lo hi j. RandInt lo hi j \<notin> set tr)
        \<and> (\<forall>s. KeyboardWrite s \<in> set tr \<longrightarrow> 1 \<le> length s \<and> length s \<le> 40))
   \<and> (\<forall>i. unit_starts True (text_str w) i =
          (if i < length (text_str w)
           then i # unit_starts True (text_str w)
                      (if is_fast_char (text_str w ! i)
                       then i + length (take 40 (takeWhile is_fast_char (drop i (text_str w))))
                       else Suc i)
           else []))
   \<and> (\<forall>env tr w'. base_delay_ms w = 0 \<and> \<not> use_random w \<and> run env w = Some (tr, w') \<longrightarrow>
        (\<exists>k. filter is_typing tr
                = concat (map (\<lambda>i. fst (snd (emit_unit env True i w)))
                            (take k (unit_starts True (text_str w) 0))))
        \<and> (last tr = Finished \<longrightarrow>
              filter is_typing tr
                = concat (map (\<lambda>i. fst (snd (emit_unit env True i w)))
                            (unit_starts True (text_str w) 0))))
   \<and> (\<forall>env tr w'. base_delay_ms w = 0 \<and> \<not> use_random w \<and> run env w = Some (tr, w')
        \<and> last tr = Finished \<and> text_str w \<noteq> [] \<and> length (text_str w) \<le> 40
        \<and> (\<forall>c \<in> set (text_str w). is_fast_char c) \<longrightarrow>
        filter is_typing tr
          = (if keyboard_raises env 0 then [KeyboardWrite (text_str w), PyautoWrite (text_str w)]
             else [KeyboardWrite (text_str w)]))
   \<and> (\<forall>env tr w'. \<not> (base_delay_ms w = 0 \<and> \<not> use_random w) \<and> run env w = Some (tr, w')
        \<and> last tr = Finished \<longrightarrow>
        filter is_typing tr
          = concat (map (\<lambda>i. fst (type_char (keyboard_raises env i)
                                     (map_option PyautoguiError (pyautogui_raises env i))
                                     (text_str w ! i)))
                      [0..<length (text_str w)]))"
proof -
  let ?tx = "text_str w"
  have cA: "\<forall>env tr w' s. \<not> (base_delay_ms w = 0 \<and> \<not> use_random w) \<and> run env w = Some (tr, w')
        \<and> (KeyboardWrite s \<in> set tr \<or> PyautoWrite s \<in> set tr) \<longrightarrow> length s = 1"
  proof (intro allI impI)
    fix env :: env and tr w' s
    assume a: "\<not> (base_delay_ms w = 0 \<and> \<not> use_random w) \<and> run env w = Some (tr, w')
        \<and> (KeyboardWrite s \<in> set tr \<or> PyautoWrite s \<in> set tr)"
    then have fm: "(base_delay_ms w = 0 \<and> \<not> use_random w) = False" by simp
    from a have r: "run env w = Some (tr, w')" by simp
    from a obtain x where x: "x \<in> set tr" "x = KeyboardWrite s \<or> x = PyautoWrite s" by blast
    from run_action_cases [OF r] x obtain j where "from_pass env False w j x"
      unfolding fm by auto
    then consider "x \<in> set (fst (snd (emit_unit env False j w)))"
      | "x \<in> set (fst (unit_delay env w (randint_raw env j)))"
      using x(2) unfolding from_pass_def by auto
    then show "length s = 1"
    proof cases
      case 1
      then have "x \<in> set (fst (type_char (keyboard_raises env j)
          (map_option PyautoguiError (pyautogui_raises env j)) (text_str w ! j)))"
        by (simp add: emit_unit_def Let_def split: prod.splits)
      with x(2) type_char_single show ?thesis by fastforce
    next
      case 2
      from unit_delay_kinds [OF this] x(2) show ?thesis by auto
    qed
  qed
  have cB: "\<forall>env i. i < length ?tx \<and> is_fast_char (?tx ! i) \<longrightarrow>
        (\<exists>c. c = take 40 (takeWhile is_fast_char (drop i ?tx))
           \<and> c \<noteq> [] \<and> length c \<le> 40
           \<and> emit_unit env True i w =
                (i + length c,
                 fst (safe_write (keyboard_raises env i)
                        (map_option PyautoguiError (pyautogui_raises env i)) c),
                 snd (safe_write (keyboard_raises env i)
                        (map_option PyautoguiError (pyautogui_raises env i)) c))
           \<and> hd (fst (snd (emit_unit env True i w))) = KeyboardWrite c
           \<and> emit_unit env False i w =
                (Suc i,
                 type_char (keyboard_raises env i)
                    (map_option PyautoguiError (pyautogui_raises env i)) (?tx ! i)))"
  proof (intro allI impI)
    fix env :: env and i :: nat
    assume a: "i < length ?tx \<and> is_fast_char (?tx ! i)"
    let ?c = "take 40 (takeWhile is_fast_char (drop i ?tx))"
    let ?kb = "keyboard_raises env i"
    let ?pg = "map_option PyautoguiError (pyautogui_raises env i)"
    from a have d: "drop i ?tx = ?tx ! i # drop (Suc i) ?tx"
      by (simp add: Cons_nth_drop_Suc)
    have ne: "?c \<noteq> []" using a unfolding d by simp
    have le: "length ?c \<le> 40" by simp
    have cl: "chunk_loop ?tx i [] = (i + length ?c, ?c)"
      using chunk_loop_eq [of "[]" ?tx i] by simp
    have e1: "emit_unit env True i w = (i + length ?c, fst (safe_write ?kb ?pg ?c), snd (safe_write ?kb ?pg ?c))"
      using a ne by (simp add: emit_unit_def Let_def cl fast_type_chunk_def split: prod.splits)
    have h: "hd (fst (snd (emit_unit env True i w))) = KeyboardWrite ?c"
      unfolding e1 by (simp add: safe_write_def)
    have e2: "emit_unit env False i w = (Suc i, type_char ?kb ?pg (?tx ! i))"
      by (simp add: emit_unit_def Let_def split: prod.splits)
    from ne le e1 h e2
    show "\<exists>c. c = take 40 (takeWhile is_fast_char (drop i ?tx))
           \<and> c \<noteq> [] \<and> length c \<le> 40
           \<and> emit_unit env True i w =
                (i + length c, fst (safe_write ?kb ?pg c), snd (safe_write ?kb ?pg c))
           \<and> hd (fst (snd (emit_unit env True i w))) = KeyboardWrite c
           \<and> emit_unit env False i w = (Suc i, type_char ?kb ?pg (?tx ! i))"
      by blast
  qed
  have cB2: "\<forall>env i. \<not> is_fast_char (?tx ! i) \<longrightarrow>
        emit_unit env True i w =
          (Suc i,
           type_char (keyboard_raises env i)
              (map_option PyautoguiError (pyautogui_raises env i)) (?tx ! i))"
    by (simp add: emit_unit_def Let_def split: prod.splits)
  have cC: "\<forall>env tr w'. base_delay_ms w = 0 \<and> \<not> use_random w \<and> run env w = Some (tr, w') \<longrightarrow>
        (\<forall>d. DelaySleep d \<notin> set tr) \<and> (\<forall>lo hi j. RandInt lo hi j \<notin> set tr)
        \<and> (\<forall>s. KeyboardWrite s \<in> set tr \<longrightarrow> 1 \<le> length s \<and> length s \<le> 40)"
  proof (intro allI impI)
    fix env :: env and tr w'
    assume a: "base_delay_ms w = 0 \<and> \<not> use_random w \<and> run env w = Some (tr, w')"
    then have fm: "(base_delay_ms w = 0 \<and> \<not> use_random w) = True" by simp
    from a have r: "run env w = Some (tr, w')" by simp
    have nd: "DelaySleep d \<notin> set tr" for d
    proof
      assume "DelaySleep d \<in> set tr"
      with run_action_cases [OF r] obtain j where "from_pass env True w j (DelaySleep d)"
        unfolding fm by auto
      then have "DelaySleep d \<in> set (fst (snd (emit_unit env True j w)))"
        unfolding from_pass_def by auto
      from emit_unit_typing [OF this] show False by simp
    qed
    have nr: "RandInt lo hi j \<notin> set tr" for lo hi j
    proof
      assume "RandInt lo hi j \<in> set tr"
      with run_action_cases [OF r] obtain k where "from_pass env True w k (RandInt lo hi j)"
        unfolding fm by auto
      then have "RandInt lo hi j \<in> set (fst (snd (emit_unit env True k w)))"
        unfolding from_pass_def by auto
      from emit_unit_typing [OF this] show False by simp
    qed
    have kw: "1 \<le> length s \<and> length s \<le> 40" if k: "KeyboardWrite s \<in> set tr" for s
    proof -
      from k run_action_cases [OF r] obtain j where j: "j < length ?tx"
        and "from_pass env True w j (KeyboardWrite s)"
        unfolding fm by auto
      then have m: "KeyboardWrite s \<in> set (fst (snd (emit_unit env True j w)))"
        unfolding from_pass_def by auto
      show ?thesis
      proof (cases "is_fast_char (?tx ! j)")
        case True
        let ?c = "take 40 (takeWhile is_fast_char (drop j ?tx))"
        from j True have d: "drop j ?tx = ?tx ! j # drop (Suc j) ?tx"
          by (simp add: Cons_nth_drop_Suc)
        have ne: "?c \<noteq> []" using True unfolding d by simp
        have cl: "chunk_loop ?tx j [] = (j + length ?c, ?c)"
          using chunk_loop_eq [of "[]" ?tx j] by simp
        from m True ne have "s = ?c"
          by (auto simp: emit_unit_def Let_def cl fast_type_chunk_def safe_write_def split: if_splits)
        moreover have "length ?c \<le> 40" by simp
        moreover have "1 \<le> length ?c" using ne by (simp add: Suc_le_eq)
        ultimately show ?thesis by simp
      next
        case False
        with m have "KeyboardWrite s \<in> set (fst (type_char (keyboard_raises env j)
            (map_option PyautoguiError (pyautogui_raises env j)) (?tx ! j)))"
          by (simp add: emit_unit_def Let_def split: prod.splits)
        then have "s = [?tx ! j]" using type_char_single by blast
        then show ?thesis by simp
      qed
    qed
    from nd nr kw
    show "(\<forall>d. DelaySleep d \<notin> set tr) \<and> (\<forall>lo hi j. RandInt lo hi j \<notin> set tr)
        \<and> (\<forall>s. KeyboardWrite s \<in> set tr \<longrightarrow> 1 \<le> length s \<and> length s \<le> 40)"
      by blast
  qed
  have cD: "\<forall>i. unit_starts True ?tx i =
          (if i < length ?tx
           then i # unit_starts True ?tx
                      (if is_fast_char (?tx ! i)
                       then i + length (take 40 (takeWhile is_fast_char (drop i ?tx)))
                       else Suc i)
           else [])"
  proof
    fix i
    show "unit_starts True ?tx i =
          (if i < length ?tx
           then i # unit_starts True ?tx
                      (if is_fast_char (?tx ! i)
                       then i + length (take 40 (takeWhile is_fast_char (drop i ?tx)))
                       else Suc i)
           else [])"
    proof (cases "i < length ?tx")
      case True
      then show ?thesis
        using unit_starts_rec [OF True, of True] next_cursor_fast [of ?tx i] by simp
    next
      case False
      then show ?thesis by (simp add: unit_starts_stop)
    qed
  qed
  have cE: "\<forall>env tr w'. base_delay_ms w = 0 \<and> \<not> use_random w \<and> run env w = Some (tr, w') \<longrightarrow>
        (\<exists>k. filter is_typing tr
                = concat (map (\<lambda>i. fst (snd (emit_unit env True i w)))
                            (take k (unit_starts True ?tx 0))))
        \<and> (last tr = Finished \<longrightarrow>
              filter is_typing tr
                = concat (map (\<lambda>i. fst (snd (emit_unit env True i w)))
                            (unit_starts True ?tx 0)))"
  proof (intro allI impI)
    fix env :: env and tr w'
    assume a: "base_delay_ms w = 0 \<and> \<not> use_random w \<and> run env w = Some (tr, w')"
    then have fm: "True = (base_delay_ms w = 0 \<and> \<not> use_random w)" by simp
    from a have r: "run env w = Some (tr, w')" by simp
    show "(\<exists>k. filter is_typing tr
                = concat (map (\<lambda>i. fst (snd (emit_unit env True i w)))
                            (take k (unit_starts True ?tx 0))))
        \<and> (last tr = Finished \<longrightarrow>
              filter is_typing tr
                = concat (map (\<lambda>i. fst (snd (emit_unit env True i w)))
                            (unit_starts True ?tx 0)))"
      by (rule run_typing [OF r fm])
  qed
  have cF: "\<forall>env tr w'. base_delay_ms w = 0 \<and> \<not> use_random w \<and> run env w = Some (tr, w')
        \<and> last tr = Finished \<and> ?tx \<noteq> [] \<and> length ?tx \<le> 40
        \<and> (\<forall>c \<in> set ?tx. is_fast_char c) \<longrightarrow>
        filter is_typing tr
          = (if keyboard_raises env 0 then [KeyboardWrite ?tx, PyautoWrite ?tx]
             else [KeyboardWrite ?tx])"
  proof (intro allI impI)
    fix env :: env and tr w'
    assume a: "base_delay_ms w = 0 \<and> \<not> use_random w \<and> run env w = Some (tr, w')
        \<and> last tr = Finished \<and> ?tx \<noteq> [] \<and> length ?tx \<le> 40
        \<and> (\<forall>c \<in> set ?tx. is_fast_char c)"
    then have fm: "True = (base_delay_ms w = 0 \<and> \<not> use_random w)" by simp
    from a have r: "run env w = Some (tr, w')" and fin: "last tr = Finished"
      and ne: "?tx \<noteq> []" and le: "length ?tx \<le> 40" and af: "\<forall>c \<in> set ?tx. is_fast_char c"
      by simp_all
    from run_typing [OF r fm] fin
    have "filter is_typing tr
        = concat (map (\<lambda>i. fst (snd (emit_unit env True i w))) (unit_starts True ?tx 0))"
      by simp
    then have t: "filter is_typing tr = fst (snd (emit_unit env True 0 w))"
      by (simp add: unit_starts_one_batch [OF ne le af])
    have tw: "takeWhile is_fast_char ?tx = ?tx" using af by (simp add: takeWhile_eq_all_conv)
    have f0: "0 < length ?tx \<and> is_fast_char (?tx ! 0)" using ne af by (cases ?tx) auto
    from cB [rule_format, OF f0, of env]
    have "emit_unit env True 0 w =
        (length ?tx,
         fst (safe_write (keyboard_raises env 0) (map_option PyautoguiError (pyautogui_raises env 0)) ?tx),
         snd (safe_write (keyboard_raises env 0) (map_option PyautoguiError (pyautogui_raises env 0)) ?tx))"
      using le by (simp add: tw)
    with t show "filter is_typing tr
          = (if keyboard_raises env 0 then [KeyboardWrite ?tx, PyautoWrite ?tx]
             else [KeyboardWrite ?tx])"
      by (simp add: safe_write_def)
  qed
  have cG: "\<forall>env tr w'. \<not> (base_delay_ms w = 0 \<and> \<not> use_random w) \<and> run env w = Some (tr, w')
        \<and> last tr = Finished \<longrightarrow>
        filter is_typing tr
          = concat (map (\<lambda>i. fst (type_char (keyboard_raises env i)
                                     (map_option PyautoguiError (pyautogui_raises env i))
                                     (?tx ! i)))
                      [0..<length ?tx])"
  proof (intro allI impI)
    fix env :: env and tr w'
    assume a: "\<not> (base_delay_ms w = 0 \<and> \<not> use_random w) \<and> run env w = Some (tr, w')
        \<and> last tr = Finished"
    then have fm: "False = (base_delay_ms w = 0 \<and> \<not> use_random w)" by simp
    from a have r: "run env w = Some (tr, w')" and fin: "last tr = Finished" by simp_all
    have e: "fst (snd (emit_unit env False i w))
        = fst (type_char (keyboard_raises env i)
                 (map_option PyautoguiError (pyautogui_raises env i)) (?tx ! i))" for i
      by (simp add: emit_unit_def Let_def split: prod.splits)
    from run_typing [OF r fm] fin
    show "filter is_typing tr
          = concat (map (\<lambda>i. fst (type_char (keyboard_raises env i)
                                     (map_option PyautoguiError (pyautogui_raises env i))
                                     (?tx ! i)))
                      [0..<length ?tx])"
      by (simp add: unit_starts_paced e)
  qed
  show ?thesis
    by (rule conjI [OF cA conjI [OF cB conjI [OF cB2 conjI [OF cC conjI [OF cD conjI [OF cE
          conjI [OF cF cG]]]]]]])
qed

theorem C2_fast_path_witness:
  "run (quiet_env (Some (py ''Notepad''))) (notepad_worker (py ''ab'' @ [10] @ py ''c''))
     = Some ([KeyboardWrite (py ''ab''), ProgressChanged 50, KeyboardWrite [10], ProgressChanged 75,
              KeyboardWrite (py ''c''), ProgressChanged 100, Finished],
             notepad_worker (py ''ab'' @ [10] @ py ''c''))
   \<and> (\<forall>d. DelaySleep d \<notin> set [KeyboardWrite (py ''ab''), ProgressChanged 50, KeyboardWrite [10],
              ProgressChanged 75, KeyboardWrite (py ''c''), ProgressChanged 100, Finished])
   \<and> unit_starts True (py ''ab'' @ [10] @ py ''c'') 0 = [0, 2, 3]
   \<and> run (quiet_env (Some (py ''Notepad''))) (notepad_worker (py ''ab''))
     = Some ([KeyboardWrite (py ''ab''), ProgressChanged 100, Finished], notepad_worker (py ''ab''))
   \<and> filter is_typing [KeyboardWrite (py ''ab''), ProgressChanged 100, Finished]
       = [KeyboardWrite (text_str (notepad_worker (py ''ab'')))]
   \<and> emit_unit (quiet_env (Some (py ''Notepad''))) True 0
        (notepad_worker (py ''aaaaaaaaaaaaaaaaaaaaaaaaaaaaaaaaaaaaaaaaa''))
     = (40, [KeyboardWrite (py ''aaaaaaaaaaaaaaaaaaaaaaaaaaaaaaaaaaaaaaaa'')], None)
   \<and> run (quiet_env (Some (py ''Notepad'')))
        (TypingWorker_init (py ''ab'') 3 False 5 10 (Some (py ''Notepad'')))
     = Some ([KeyboardWrite (py ''a''), ProgressChanged 50, DelaySleep 3,
              KeyboardWrite (py ''b''), ProgressChanged 100, DelaySleep 3, Finished],
             TypingWorker_init (py ''ab'') 3 False 5 10 (Some (py ''Notepad'')))"
proof -
  let ?env = "quiet_env (Some (py ''Notepad''))"
  let ?w = "notepad_worker (py ''ab'' @ [10] @ py ''c'')"
  let ?tr = "[KeyboardWrite (py ''ab''), ProgressChanged 50, KeyboardWrite [10], ProgressChanged 75,
              KeyboardWrite (py ''c''), ProgressChanged 100, Finished]"
  let ?v = "notepad_worker (py ''ab'')"
  let ?tv = "[KeyboardWrite (py ''ab''), ProgressChanged 100, Finished]"
  have r: "run ?env ?w = Some (?tr, ?w)"
    by (simp add: notepad_worker_def eval_simps)
  have f: "base_delay_ms ?w = 0 \<and> \<not> use_random ?w"
    by (simp add: notepad_worker_def TypingWorker_init_def Let_def)
  from C2_fast_path [of ?w] f r have ns: "\<forall>d. DelaySleep d \<notin> set ?tr" by blast
  have us: "unit_starts True (py ''ab'' @ [10] @ py ''c'') 0 = [0, 2, 3]"
    by (simp add: unit_starts_rec unit_starts_stop next_cursor_def chunk_loop_rec chunk_loop_stop
          is_fast_char_def py_def numeral_2_eq_2 [symmetric] numeral_3_eq_3 [symmetric])
  have rv: "run ?env ?v = Some (?tv, ?v)"
    by (simp add: notepad_worker_def eval_simps)
  have hv: "base_delay_ms ?v = 0 \<and> \<not> use_random ?v \<and> run ?env ?v = Some (?tv, ?v)
        \<and> last ?tv = Finished \<and> text_str ?v \<noteq> [] \<and> length (text_str ?v) \<le> 40
        \<and> (\<forall>c \<in> set (text_str ?v). is_fast_char c)"
    using rv by (simp add: notepad_worker_def TypingWorker_init_def Let_def py_def is_fast_char_def)
  have kb: "\<not> keyboard_raises ?env 0" by (simp add: quiet_env_def)
  note one = C2_fast_path [of ?v, THEN conjunct2, THEN conjunct2, THEN conjunct2, THEN conjunct2,
      THEN conjunct2, THEN conjunct2, THEN conjunct1, rule_format, OF hv]
  have ty: "filter is_typing ?tv = [KeyboardWrite (text_str ?v)]"
    using one kb by (simp only: if_False)
  have e: "emit_unit ?env True 0
        (notepad_worker (py ''aaaaaaaaaaaaaaaaaaaaaaaaaaaaaaaaaaaaaaaaa''))
     = (40, [KeyboardWrite (py ''aaaaaaaaaaaaaaaaaaaaaaaaaaaaaaaaaaaaaaaa'')], None)"
    by (simp add: notepad_worker_def eval_simps)
  have r2: "run ?env (TypingWorker_init (py ''ab'') 3 False 5 10 (Some (py ''Notepad'')))
     = Some ([KeyboardWrite (py ''a''), ProgressChanged 50, DelaySleep 3,
              KeyboardWrite (py ''b''), ProgressChanged 100, DelaySleep 3, Finished],
             TypingWorker_init (py ''ab'') 3 False 5 10 (Some (py ''Notepad'')))"
    by (simp add: eval_simps)
  from r ns us rv ty e r2 show ?thesis by blast
qed

subsection \<open>Terminal signals\<close>

text \<open>
  C10, as stated: every invocation of \<^verbatim>\<open>run\<close> emits a terminal signal and returns. A worker
  that pauses itself on a focus change and is never resumed or stopped stays in the pause
  loop: \<^verbatim>\<open>run\<close> does not return and emits no terminal signal.
\<close>

theorem C10_paused_forever_counterexample:
  "run (quiet_env (Some (py ''Chrome''))) (notepad_worker (py ''ab'')) = None"
  by (simp add: notepad_worker_def eval_simps)

text \<open>
  C10, amended: a run that returns has emitted exactly one terminal signal, as its last
  action. With the empty text it emits \<^verbatim>\<open>finished\<close> and nothing else.

  An error signal is the last action and carries the exception that was raised: that of the
  pyautogui call of some unit, the empty-range error of the jitter draw, or the overflow
  error of the delay sleep. Conversely, take any pass of the run (the first pass starts at
  cursor \<open>0\<close> with the worker as given, and each pass that hands over a cursor inside the
  text is followed by the pass at that cursor) that is not stopped and leaves the pause loop
  unstopped. If typing its unit raises, or, in the paced path, the jitter draw or delay
  sleep after it raises, then the run returns, and its trace ends with the error signal
  carrying that exception, with no terminal signal before it. Typing the unit at cursor
  \<open>j\<close> raises exactly when the pyautogui call raises and is reached: for backspace and
  escape, and for newline, tab and the characters from code point 32 on when
  \<^verbatim>\<open>keyboard.write\<close> has raised.

  A run that does not return is waiting in the pause loop of some cursor, paused and not
  stopped; and whenever the control thread calls \<^verbatim>\<open>stop()\<close> during the idle sleeps of every
  cursor, the run returns.
\<close>

theorem C10_one_terminal_signal:
  "(\<forall>tr w'. run env w = Some (tr, w') \<longrightarrow>
       (\<exists>body t. tr = body @ [t] \<and> is_terminal t \<and> (\<forall>a \<in> set body. \<not> is_terminal a)))
   \<and> (text_str w = [] \<longrightarrow> run env w = Some ([Finished], w))
   \<and> (\<forall>tr w' e. run env w = Some (tr, w') \<and> Error e \<in> set tr \<longrightarrow>
         last tr = Error e
         \<and> ((\<exists>j < length (text_str w). \<exists>m. e = PyautoguiError m \<and> pyautogui_raises env j = Some m)
            \<or> (e = RandintEmptyRange \<and> use_random w \<and> rand_max_ms w < rand_min_ms w)
            \<or> (e = SleepOverflow \<and> \<not> (base_delay_ms w = 0 \<and> \<not> use_random w)
                \<and> (\<exists>j < length (text_str w). \<exists>d. 0 < d \<and> sleep_overflows env d
                      \<and> DelaySleep d \<in> set (fst (unit_delay env w (randint_raw env j)))))))
   \<and> (text_str w \<noteq> [] \<longrightarrow>
         (0, w) \<in> set (passes env (base_delay_ms w = 0 \<and> \<not> use_random w) 0 w))
   \<and> (\<forall>j v j' acts v'.
         (j, v) \<in> set (passes env (base_delay_ms w = 0 \<and> \<not> use_random w) 0 w)
         \<and> loop_body env (base_delay_ms w = 0 \<and> \<not> use_random w) j v = Some (Next j' acts v')
         \<and> j' < length (text_str w) \<longrightarrow>
         (j', v') \<in> set (passes env (base_delay_ms w = 0 \<and> \<not> use_random w) 0 w))
   \<and> (\<forall>j v w3 a3 e.
         (j, v) \<in> set (passes env (base_delay_ms w = 0 \<and> \<not> use_random w) 0 w)
         \<and> \<not> stop_flag (apply_calls (calls_top env j) v)
         \<and> pause_wait (fst (check_focus env j (apply_calls (calls_top env j) v))) (calls_idle env j)
             = Some (w3, a3)
         \<and> \<not> stop_flag w3
         \<and> (snd (snd (emit_unit env (base_delay_ms w = 0 \<and> \<not> use_random w) j w)) = Some e
             \<or> (\<not> (base_delay_ms w = 0 \<and> \<not> use_random w)
                 \<and> snd (snd (emit_unit env (base_delay_ms w = 0 \<and> \<not> use_random w) j w)) = None
                 \<and> snd (unit_delay env w (randint_raw env j)) = Some e)) \<longrightarrow>
         (\<exists>body. run env w = Some (body @ [Error e], apply_calls (calls_emit env j) w3)
            \<and> (\<forall>a \<in> set body. \<not> is_terminal a)))
   \<and> (\<forall>fm. \<forall>j < length (text_str w).
         snd (snd (emit_unit env fm j w))
           = (if text_str w ! j = 8 \<or> text_str w ! j = 27
                 \<or> (keyboard_raises env j
                     \<and> (text_str w ! j = 10 \<or> text_str w ! j = 9 \<or> 32 \<le> text_str w ! j))
              then map_option PyautoguiError (pyautogui_raises env j) else None))
   \<and> (\<forall>raw. (\<not> use_random w \<longrightarrow>
                snd (unit_delay env w raw)
                  = (if 0 < base_delay_ms w \<and> sleep_overflows env (base_delay_ms w)
                     then Some SleepOverflow else None))
            \<and> (use_random w \<and> rand_max_ms w < rand_min_ms w \<longrightarrow>
                snd (unit_delay env w raw) = Some RandintEmptyRange))
   \<and> (run env w = None \<longrightarrow>
         (\<exists>j v. j < length (text_str w) \<and> same_config v w \<and> pause_flag v \<and> \<not> stop_flag v
            \<and> pause_wait v (calls_idle env j) = None))
   \<and> ((\<forall>j < length (text_str w). \<exists>cs \<in> set (calls_idle env j). CallStop \<in> set cs) \<longrightarrow>
         (\<exists>r. run env w = Some r))"
proof -
  let ?fm = "base_delay_ms w = 0 \<and> \<not> use_random w"
  have c1: "\<forall>tr w'. run env w = Some (tr, w') \<longrightarrow>
       (\<exists>body t. tr = body @ [t] \<and> is_terminal t \<and> (\<forall>a \<in> set body. \<not> is_terminal a))"
  proof (intro allI impI)
    fix tr w'
    assume "run env w = Some (tr, w')"
    then show "\<exists>body t. tr = body @ [t] \<and> is_terminal t \<and> (\<forall>a \<in> set body. \<not> is_terminal a)"
      by (rule run_terminal)
  qed
  have c2: "text_str w = [] \<longrightarrow> run env w = Some ([Finished], w)"
    by (simp add: run_def)
  have c3: "\<forall>tr w' e. run env w = Some (tr, w') \<and> Error e \<in> set tr \<longrightarrow>
         last tr = Error e
         \<and> ((\<exists>j < length (text_str w). \<exists>m. e = PyautoguiError m \<and> pyautogui_raises env j = Some m)
            \<or> (e = RandintEmptyRange \<and> use_random w \<and> rand_max_ms w < rand_min_ms w)
            \<or> (e = SleepOverflow \<and> \<not> ?fm
                \<and> (\<exists>j < length (text_str w). \<exists>d. 0 < d \<and> sleep_overflows env d
                      \<and> DelaySleep d \<in> set (fst (unit_delay env w (randint_raw env j))))))"
  proof (intro allI impI)
    fix tr w' e
    assume a: "run env w = Some (tr, w') \<and> Error e \<in> set tr"
    then have r: "run env w = Some (tr, w')" and m: "Error e \<in> set tr" by simp_all
    from run_terminal [OF r] obtain body t where
      "tr = body @ [t]" "\<forall>a \<in> set body. \<not> is_terminal a" by blast
    from terminal_unique [OF this m] have l: "last tr = Error e" by simp
    note o = run_error_origin [OF r m]
    show "last tr = Error e
         \<and> ((\<exists>j < length (text_str w). \<exists>m. e = PyautoguiError m \<and> pyautogui_raises env j = Some m)
            \<or> (e = RandintEmptyRange \<and> use_random w \<and> rand_max_ms w < rand_min_ms w)
            \<or> (e = SleepOverflow \<and> \<not> ?fm
                \<and> (\<exists>j < length (text_str w). \<exists>d. 0 < d \<and> sleep_overflows env d
                      \<and> DelaySleep d \<in> set (fst (unit_delay env w (randint_raw env j))))))"
      by (rule conjI [OF l o])
  qed
  have c4: "text_str w \<noteq> [] \<longrightarrow> (0, w) \<in> set (passes env ?fm 0 w)"
    by (simp add: passes_self)
  have c5: "\<forall>j v j' acts v'.
         (j, v) \<in> set (passes env ?fm 0 w)
         \<and> loop_body env ?fm j v = Some (Next j' acts v')
         \<and> j' < length (text_str w) \<longrightarrow>
         (j', v') \<in> set (passes env ?fm 0 w)"
  proof (intro allI impI)
    fix j v j' acts v'
    assume a: "(j, v) \<in> set (passes env ?fm 0 w)
         \<and> loop_body env ?fm j v = Some (Next j' acts v')
         \<and> j' < length (text_str w)"
    show "(j', v') \<in> set (passes env ?fm 0 w)"
      by (rule passes_next [OF a [THEN conjunct1] a [THEN conjunct2, THEN conjunct1]
            a [THEN conjunct2, THEN conjunct2]])
  qed
  have c6: "\<forall>j v w3 a3 e.
         (j, v) \<in> set (passes env ?fm 0 w)
         \<and> \<not> stop_flag (apply_calls (calls_top env j) v)
         \<and> pause_wait (fst (check_focus env j (apply_calls (calls_top env j) v))) (calls_idle env j)
             = Some (w3, a3)
         \<and> \<not> stop_flag w3
         \<and> (snd (snd (emit_unit env ?fm j w)) = Some e
             \<or> (\<not> ?fm
                 \<and> snd (snd (emit_unit env ?fm j w)) = None
                 \<and> snd (unit_delay env w (randint_raw env j)) = Some e)) \<longrightarrow>
         (\<exists>body. run env w = Some (body @ [Error e], apply_calls (calls_emit env j) w3)
            \<and> (\<forall>a \<in> set body. \<not> is_terminal a))"
  proof (intro allI impI)
    fix j v w3 a3 e
    assume a: "(j, v) \<in> set (passes env ?fm 0 w)
         \<and> \<not> stop_flag (apply_calls (calls_top env j) v)
         \<and> pause_wait (fst (check_focus env j (apply_calls (calls_top env j) v))) (calls_idle env j)
             = Some (w3, a3)
         \<and> \<not> stop_flag w3
         \<and> (snd (snd (emit_unit env ?fm j w)) = Some e
             \<or> (\<not> ?fm
                 \<and> snd (snd (emit_unit env ?fm j w)) = None
                 \<and> snd (unit_delay env w (randint_raw env j)) = Some e))"
    note mem = a [THEN conjunct1]
    note ns = a [THEN conjunct2, THEN conjunct1]
    note pw = a [THEN conjunct2, THEN conjunct2, THEN conjunct1]
    note ns3 = a [THEN conjunct2, THEN conjunct2, THEN conjunct2, THEN conjunct1]
    note raised = a [THEN conjunct2, THEN conjunct2, THEN conjunct2, THEN conjunct2]
    show "\<exists>body. run env w = Some (body @ [Error e], apply_calls (calls_emit env j) w3)
            \<and> (\<forall>a \<in> set body. \<not> is_terminal a)"
      by (rule run_pass_raises [OF refl mem ns pw ns3 raised])
  qed
  have c7: "\<forall>fm. \<forall>j < length (text_str w).
         snd (snd (emit_unit env fm j w))
           = (if text_str w ! j = 8 \<or> text_str w ! j = 27
                 \<or> (keyboard_raises env j
                     \<and> (text_str w ! j = 10 \<or> text_str w ! j = 9 \<or> 32 \<le> text_str w ! j))
              then map_option PyautoguiError (pyautogui_raises env j) else None)"
  proof (intro allI impI)
    fix fm j
    assume "j < length (text_str w)"
    then show "snd (snd (emit_unit env fm j w))
           = (if text_str w ! j = 8 \<or> text_str w ! j = 27
                 \<or> (keyboard_raises env j
                     \<and> (text_str w ! j = 10 \<or> text_str w ! j = 9 \<or> 32 \<le> text_str w ! j))
              then map_option PyautoguiError (pyautogui_raises env j) else None)"
      by (rule emit_unit_raises)
  qed
  have c8: "\<forall>raw. (\<not> use_random w \<longrightarrow>
                snd (unit_delay env w raw)
                  = (if 0 < base_delay_ms w \<and> sleep_overflows env (base_delay_ms w)
                     then Some SleepOverflow else None))
            \<and> (use_random w \<and> rand_max_ms w < rand_min_ms w \<longrightarrow>
                snd (unit_delay env w raw) = Some RandintEmptyRange)"
    by (simp add: unit_delay_def sleep_ms_def randint_def Let_def)
  have c9: "run env w = None \<longrightarrow>
         (\<exists>j v. j < length (text_str w) \<and> same_config v w \<and> pause_flag v \<and> \<not> stop_flag v
            \<and> pause_wait v (calls_idle env j) = None)"
  proof
    assume n: "run env w = None"
    then have ne: "length (text_str w) \<noteq> 0" by (auto simp: run_def)
    with n have "run_loop env ?fm 0 w = None" by (simp add: run_def Let_def)
    from run_loop_None [OF this] obtain j v where
      "j < length (text_str w)" "same_config v w" "pause_wait v (calls_idle env j) = None" by blast
    with pause_wait_None_entry [of v "calls_idle env j"]
    show "\<exists>j v. j < length (text_str w) \<and> same_config v w \<and> pause_flag v \<and> \<not> stop_flag v
            \<and> pause_wait v (calls_idle env j) = None"
      by blast
  qed
  have c10: "(\<forall>j < length (text_str w). \<exists>cs \<in> set (calls_idle env j). CallStop \<in> set cs) \<longrightarrow>
         (\<exists>r. run env w = Some r)"
  proof
    assume a: "\<forall>j < length (text_str w). \<exists>cs \<in> set (calls_idle env j). CallStop \<in> set cs"
    show "\<exists>r. run env w = Some r"
    proof (cases "length (text_str w) = 0")
      case True
      then show ?thesis by (simp add: run_def)
    next
      case False
      with run_loop_stop_eventually [OF a, of ?fm 0]
      show ?thesis by (simp add: run_def Let_def)
    qed
  qed
  show ?thesis
    by (rule conjI [OF c1 conjI [OF c2 conjI [OF c3 conjI [OF c4 conjI [OF c5 conjI [OF c6
          conjI [OF c7 conjI [OF c8 conjI [OF c9 c10]]]]]]]]])
qed

theorem C10_one_terminal_signal_witness:
  "(0, notepad_worker (py ''ab''))
      \<in> set (passes failing_env (base_delay_ms (notepad_worker (py ''ab'')) = 0
                                  \<and> \<not> use_random (notepad_worker (py ''ab''))) 0
                (notepad_worker (py ''ab'')))
   \<and> pyautogui_raises failing_env 0 = Some (py ''boom'') \<and> keyboard_raises failing_env 0
   \<and> snd (snd (emit_unit failing_env True 0 (notepad_worker (py ''ab''))))
        = Some (PyautoguiError (py ''boom''))
   \<and> (\<exists>body. run failing_env (notepad_worker (py ''ab''))
          = Some (body @ [Error (PyautoguiError (py ''boom''))], notepad_worker (py ''ab''))
        \<and> (\<forall>a \<in> set body. \<not> is_terminal a))
   \<and> run failing_env (notepad_worker (py ''ab''))
     = Some ([KeyboardWrite (py ''ab''), PyautoWrite (py ''ab''), Error (PyautoguiError (py ''boom''))],
             notepad_worker (py ''ab''))
   \<and> last [KeyboardWrite (py ''ab''), PyautoWrite (py ''ab''), Error (PyautoguiError (py ''boom''))]
       = Error (PyautoguiError (py ''boom''))
   \<and> run failing_env (notepad_worker []) = Some ([Finished], notepad_worker [])
   \<and> (\<exists>r. run stop_while_paused_env (notepad_worker (py ''ab'')) = Some r)
   \<and> run stop_while_paused_env (notepad_worker (py ''ab''))
       = Some ([FocusPaused, IdleSleep, Stopped],
               (notepad_worker (py ''ab''))\<lparr>stop_flag := True, pause_flag := True\<rparr>)"
proof -
  let ?w = "notepad_worker (py ''ab'')"
  let ?fm = "base_delay_ms ?w = 0 \<and> \<not> use_random ?w"
  note th = C10_one_terminal_signal [of failing_env ?w]
  have ne: "text_str ?w \<noteq> []"
    by (simp add: notepad_worker_def TypingWorker_init_def Let_def py_def)
  have fm: "?fm = True"
    by (simp add: notepad_worker_def TypingWorker_init_def Let_def)
  from th [THEN conjunct2, THEN conjunct2, THEN conjunct2, THEN conjunct1] ne
  have mem: "(0, ?w) \<in> set (passes failing_env ?fm 0 ?w)" by (rule mp)
  have w1: "apply_calls (calls_top failing_env 0) ?w = ?w"
    "apply_calls (calls_emit failing_env 0) ?w = ?w"
    by (simp_all add: failing_env_def quiet_env_def apply_calls_def)
  have ns: "\<not> stop_flag (apply_calls (calls_top failing_env 0) ?w)"
    unfolding w1 by (simp add: notepad_worker_def TypingWorker_init_def Let_def)
  have pw: "pause_wait (fst (check_focus failing_env 0 (apply_calls (calls_top failing_env 0) ?w)))
             (calls_idle failing_env 0) = Some (?w, [])"
    by (simp add: failing_env_def notepad_worker_def eval_simps)
  have ns3: "\<not> stop_flag ?w"
    by (simp add: notepad_worker_def TypingWorker_init_def Let_def)
  have p: "pyautogui_raises failing_env 0 = Some (py ''boom'')" "keyboard_raises failing_env 0"
    by (simp_all add: failing_env_def quiet_env_def)
  have eu: "snd (snd (emit_unit failing_env True 0 ?w)) = Some (PyautoguiError (py ''boom''))"
    by (simp add: failing_env_def notepad_worker_def eval_simps)
  then have eu': "snd (snd (emit_unit failing_env ?fm 0 ?w)) = Some (PyautoguiError (py ''boom''))"
    by (simp only: fm)
  have hyp: "(0, ?w) \<in> set (passes failing_env ?fm 0 ?w)
         \<and> \<not> stop_flag (apply_calls (calls_top failing_env 0) ?w)
         \<and> pause_wait (fst (check_focus failing_env 0 (apply_calls (calls_top failing_env 0) ?w)))
             (calls_idle failing_env 0) = Some (?w, [])
         \<and> \<not> stop_flag ?w
         \<and> (snd (snd (emit_unit failing_env ?fm 0 ?w)) = Some (PyautoguiError (py ''boom''))
             \<or> (\<not> ?fm
                 \<and> snd (snd (emit_unit failing_env ?fm 0 ?w)) = None
                 \<and> snd (unit_delay failing_env ?w (randint_raw failing_env 0))
                     = Some (PyautoguiError (py ''boom''))))"
    by (rule conjI [OF mem conjI [OF ns conjI [OF pw conjI [OF ns3 disjI1 [OF eu']]]]])
  note f = th [THEN conjunct2, THEN conjunct2, THEN conjunct2, THEN conjunct2, THEN conjunct2,
      THEN conjunct1, rule_format, OF hyp]
  have fwd: "\<exists>body. run failing_env ?w = Some (body @ [Error (PyautoguiError (py ''boom''))], ?w)
        \<and> (\<forall>a \<in> set body. \<not> is_terminal a)"
    using f unfolding w1 .
  have r: "run failing_env ?w
     = Some ([KeyboardWrite (py ''ab''), PyautoWrite (py ''ab''), Error (PyautoguiError (py ''boom''))],
             ?w)"
    by (simp add: failing_env_def notepad_worker_def eval_simps)
  have e: "text_str (notepad_worker []) = []"
    by (simp add: notepad_worker_def TypingWorker_init_def Let_def)
  have s: "\<forall>j < length (text_str ?w).
      \<exists>cs \<in> set (calls_idle stop_while_paused_env j). CallStop \<in> set cs"
    by (simp add: stop_while_paused_env_def quiet_env_def)
  have r2: "run stop_while_paused_env ?w
       = Some ([FocusPaused, IdleSleep, Stopped], ?w\<lparr>stop_flag := True, pause_flag := True\<rparr>)"
    by (simp add: stop_while_paused_env_def notepad_worker_def eval_simps)
  have l: "last [KeyboardWrite (py ''ab''), PyautoWrite (py ''ab''), Error (PyautoguiError (py ''boom''))]
       = Error (PyautoguiError (py ''boom''))"
    by simp
  from C10_one_terminal_signal [of failing_env "notepad_worker []", THEN conjunct2, THEN conjunct1] e
  have fin: "run failing_env (notepad_worker []) = Some ([Finished], notepad_worker [])"
    by (rule mp)
  have ex: "\<exists>r. run stop_while_paused_env ?w = Some r"
    using r2 by simp
  from mem p eu fwd r l fin ex r2 show ?thesis by simp
qed

end
